theory Spec2Isabelle
  imports Main "HOL-Library.Word"
begin

section \<open>Fixed-width encoding (encode.go)\<close>

text \<open>
  A shallow embedding of the encoder of package fixedwidth. Byte slices are
  \<^typ>\<open>string\<close> (a list of 8-bit characters); Go's \<^verbatim>\<open>(value, error)\<close> results are
  sums with the error on the left. A run-time panic is carried as the error value
  \<open>Panic\<close>: no function of the package recovers, so a panic leaves every caller
  the way a returned error does.
\<close>

subsection \<open>Errors\<close>

datatype error =
    MarshalInvalidTypeError string  \<comment> \<open>\<^verbatim>\<open>&MarshalInvalidTypeError{typeName: ...}\<close>\<close>
  | MarshalTextError string         \<comment> \<open>an error returned by a value's own \<^verbatim>\<open>MarshalText\<close>\<close>
  | WriteError string               \<comment> \<open>an error of the underlying \<^verbatim>\<open>io.Writer\<close>\<close>
  | Panic string                    \<comment> \<open>a run-time panic\<close>

subsection \<open>The parts of package strconv that the encoder calls\<close>

definition digit :: "nat \<Rightarrow> char" where
  "digit d = ''0123456789'' ! (d mod 10)"

fun digits :: "nat \<Rightarrow> string" where
  "digits n = (if n < 10 then [digit n] else digits (n div 10) @ [digit (n mod 10)])"

declare digits.simps [simp del]

text \<open>\<^verbatim>\<open>strconv.Itoa\<close>: base 10, a minus sign for negative numbers.\<close>

definition Itoa :: "int \<Rightarrow> string" where
  "Itoa i = (if i < 0 then CHR ''-'' # digits (nat (- i)) else digits (nat i))"

text \<open>
  A floating-point value as \<^verbatim>\<open>strconv\<close> decodes it: a finite value is sign,
  mantissa \<open>m\<close> and binary exponent \<open>e\<close>, standing for \<open>\<plusminus> m * 2 ^ e\<close>; the
  others are the infinities and NaN.
\<close>

datatype float64 = Finite bool nat int | Infinite bool | NaN

text \<open>
  Rounding the fraction \<open>n / d\<close> to the nearest natural number, a tie to the even
  one: what \<^verbatim>\<open>decimal.Round\<close> does on the exact decimal expansion.
\<close>

definition round_half_even :: "nat \<Rightarrow> nat \<Rightarrow> nat" where
  "round_half_even n d =
     (let q = n div d; r = n mod d
      in if d < 2 * r \<or> (2 * r = d \<and> odd q) then q + 1 else q)"

definition zero_pad :: "nat \<Rightarrow> string \<Rightarrow> string" where
  "zero_pad w s = replicate (w - length s) (CHR ''0'') @ s"

text \<open>
  \<^verbatim>\<open>strconv.FormatFloat(f, 'f', prec, bitSize)\<close> for \<open>prec \<ge> 0\<close>: the exact value
  is rounded to \<open>prec\<close> fraction digits and written in fixed notation. \<open>bitSize\<close>
  32 first converts to float32, which changes nothing on a value read from a
  float32.
\<close>

fun FormatFloat :: "float64 \<Rightarrow> nat \<Rightarrow> nat \<Rightarrow> string" where
  "FormatFloat NaN prec bitSize = ''NaN''"
| "FormatFloat (Infinite neg) prec bitSize = (if neg then ''-Inf'' else ''+Inf'')"
| "FormatFloat (Finite neg m e) prec bitSize =
     (let r = (if 0 \<le> e then m * 2 ^ nat e * 10 ^ prec
               else round_half_even (m * 10 ^ prec) (2 ^ nat (- e)))
      in (if neg then ''-'' else '''')
         @ digits (r div 10 ^ prec)
         @ (if 0 < prec then CHR ''.'' # zero_pad prec (digits (r mod 10 ^ prec)) else ''''))"

subsection \<open>Types and values as package reflect shows them\<close>

text \<open>
  \<^verbatim>\<open>reflect.Kind\<close>; the constant \<^verbatim>\<open>reflect.Int\<close> is \<open>reflect_Int\<close>, and so on.
\<close>

datatype Kind =
    reflect_Invalid | reflect_Bool
  | reflect_Int | reflect_Int8 | reflect_Int16 | reflect_Int32 | reflect_Int64
  | reflect_Uint | reflect_Uint8 | reflect_Uint16 | reflect_Uint32 | reflect_Uint64
  | reflect_Uintptr | reflect_Float32 | reflect_Float64 | reflect_Complex64
  | reflect_Complex128 | reflect_Array | reflect_Chan | reflect_Func | reflect_Interface
  | reflect_Map | reflect_Ptr | reflect_Slice | reflect_String | reflect_Struct
  | reflect_UnsafePointer

text \<open>
  A \<^verbatim>\<open>reflect.Type\<close>, as far as the encoder looks at it: its kind, its name,
  whether it implements \<^verbatim>\<open>encoding.TextMarshaler\<close>, and for a pointer type the
  type it points to.
\<close>

datatype Type =
    PtrTo string bool Type     \<comment> \<open>name, implements TextMarshaler, element type\<close>
  | Plain Kind string bool     \<comment> \<open>kind, name, implements TextMarshaler\<close>

fun Kind_of :: "Type \<Rightarrow> Kind" where
  "Kind_of (PtrTo n m e) = reflect_Ptr"
| "Kind_of (Plain k n m) = k"

fun Name_of :: "Type \<Rightarrow> string" where
  "Name_of (PtrTo n m e) = n"
| "Name_of (Plain k n m) = n"

fun Implements :: "Type \<Rightarrow> bool" where
  "Implements (PtrTo n m e) = m"
| "Implements (Plain k n m) = m"

text \<open>
  The kinds of the signed integers, of the floats, and of the values that the
  encoder does not look into; each value below has the kind of its constructor.
\<close>

datatype IntKind = KInt | KInt8 | KInt16 | KInt32 | KInt64
datatype FloatKind = KFloat32 | KFloat64
datatype OtherKind =
    KBool | KUint | KUint8 | KUint16 | KUint32 | KUint64 | KUintptr
  | KComplex64 | KComplex128 | KArray | KChan | KFunc | KMap | KUnsafePointer

fun int_kind :: "IntKind \<Rightarrow> Kind" where
  "int_kind KInt = reflect_Int" | "int_kind KInt8 = reflect_Int8" | "int_kind KInt16 = reflect_Int16"
| "int_kind KInt32 = reflect_Int32" | "int_kind KInt64 = reflect_Int64"

fun float_kind :: "FloatKind \<Rightarrow> Kind" where
  "float_kind KFloat32 = reflect_Float32" | "float_kind KFloat64 = reflect_Float64"

fun other_kind :: "OtherKind \<Rightarrow> Kind" where
  "other_kind KBool = reflect_Bool" | "other_kind KUint = reflect_Uint" | "other_kind KUint8 = reflect_Uint8"
| "other_kind KUint16 = reflect_Uint16" | "other_kind KUint32 = reflect_Uint32" | "other_kind KUint64 = reflect_Uint64"
| "other_kind KUintptr = reflect_Uintptr" | "other_kind KComplex64 = reflect_Complex64"
| "other_kind KComplex128 = reflect_Complex128" | "other_kind KArray = reflect_Array" | "other_kind KChan = reflect_Chan"
| "other_kind KFunc = reflect_Func" | "other_kind KMap = reflect_Map" | "other_kind KUnsafePointer = reflect_UnsafePointer"

text \<open>
  What every value carries of its type: the type's name (\<^verbatim>\<open>Type.Name()\<close>) and,
  when the type implements \<^verbatim>\<open>encoding.TextMarshaler\<close>, the outcome on this value
  of the whole expression \<^verbatim>\<open>v.Interface().(encoding.TextMarshaler).MarshalText()\<close>.
  The method is user code, so the outcome is data of the model; it is
  \<open>Some (Inl (Panic _))\<close> when a step of the expression panics, as
  \<^verbatim>\<open>Interface\<close> does on a value read through an unexported struct field, and as
  the method itself may.
\<close>

record Info =
  TypeName :: string
  MarshalText :: "(error + string) option"

text \<open>
  A \<^verbatim>\<open>reflect.Value\<close>. A struct value lists, per field in declaration order, what
  \<^verbatim>\<open>f.Tag.Get("fixed")\<close> returns (the empty string when the field has no such
  tag) and the field's value. Values are finite trees: a pointer cycle, on which
  the Go code does not return, is not a value of the model.
\<close>

datatype Value =
    NilPtr Info Type                     \<comment> \<open>a nil pointer; the type it would point to\<close>
  | Pointer Info Value                   \<comment> \<open>a pointer to a value\<close>
  | NilInterface Info                    \<comment> \<open>an interface holding nothing\<close>
  | InterfaceV Info Value                \<comment> \<open>an interface holding a value\<close>
  | StructV Info "(string \<times> Value) list"
  | StringV Info string
  | IntV IntKind Info "64 word"
  | FloatV FloatKind Info float64
  | SliceV Info "Value list"
  | OtherV OtherKind Info                \<comment> \<open>bool, unsigned, complex, array, map, chan, func\<close>

definition implements :: "Info \<Rightarrow> bool" where
  "implements i = (MarshalText i \<noteq> None)"

text \<open>\<^verbatim>\<open>v.Type()\<close>\<close>

fun Type_of :: "Value \<Rightarrow> Type" where
  "Type_of (NilPtr i t) = PtrTo (TypeName i) (implements i) t"
| "Type_of (Pointer i v) = PtrTo (TypeName i) (implements i) (Type_of v)"
| "Type_of (NilInterface i) = Plain reflect_Interface (TypeName i) (implements i)"
| "Type_of (InterfaceV i v) = Plain reflect_Interface (TypeName i) (implements i)"
| "Type_of (StructV i fs) = Plain reflect_Struct (TypeName i) (implements i)"
| "Type_of (StringV i s) = Plain reflect_String (TypeName i) (implements i)"
| "Type_of (IntV k i n) = Plain (int_kind k) (TypeName i) (implements i)"
| "Type_of (FloatV k i f) = Plain (float_kind k) (TypeName i) (implements i)"
| "Type_of (SliceV i vs) = Plain reflect_Slice (TypeName i) (implements i)"
| "Type_of (OtherV k i) = Plain (other_kind k) (TypeName i) (implements i)"

fun info :: "Value \<Rightarrow> Info" where
  "info (NilPtr i t) = i"
| "info (Pointer i v) = i"
| "info (NilInterface i) = i"
| "info (InterfaceV i v) = i"
| "info (StructV i fs) = i"
| "info (StringV i s) = i"
| "info (IntV k i n) = i"
| "info (FloatV k i f) = i"
| "info (SliceV i vs) = i"
| "info (OtherV k i) = i"

subsection \<open>Field layouts\<close>

text \<open>
  \<^verbatim>\<open>type fieldSpec struct\<close>. The field \<^verbatim>\<open>value\<close> is called \<open>bytes\<close> here
  (\<open>value\<close> is a reserved word). Positions are Go \<^verbatim>\<open>int\<close>s; for
  \<open>1 \<le> startPos \<le> endPos\<close> the arithmetic below stays within the range of
  \<^verbatim>\<open>int\<close>, so it is written on \<^typ>\<open>int\<close>.
\<close>

record fieldSpec =
  startPos :: int
  endPos :: int
  leftpad :: bool
  bytes :: string

definition fieldLength :: "fieldSpec \<Rightarrow> int" where
  "fieldLength f = endPos f - startPos f + 1"

text \<open>
  \<^verbatim>\<open>leftpadChar\<close>: the test for TextMarshaler comes first in both equations;
  the first equation is \<^verbatim>\<open>case reflect.Ptr\<close>, the second the other cases.
\<close>

fun leftpadChar :: "fieldSpec \<Rightarrow> Type \<Rightarrow> char" where
  "leftpadChar f (PtrTo n m e) = (if m then CHR '' '' else leftpadChar f e)"
| "leftpadChar f (Plain k n m) =
     (if m then CHR '' ''
      else case k of
        reflect_Interface \<Rightarrow> CHR '' ''
      | reflect_Struct \<Rightarrow> CHR '' ''
      | reflect_String \<Rightarrow> CHR '' ''
      | reflect_Int \<Rightarrow> CHR ''0''
      | reflect_Int64 \<Rightarrow> CHR ''0''
      | reflect_Int32 \<Rightarrow> CHR ''0''
      | reflect_Int16 \<Rightarrow> CHR ''0''
      | reflect_Int8 \<Rightarrow> CHR ''0''
      | reflect_Float32 \<Rightarrow> CHR ''0''
      | reflect_Float64 \<Rightarrow> CHR ''0''
      | _ \<Rightarrow> CHR '' '')"

text \<open>
  Go's \<^verbatim>\<open>copy(dst[lo:hi], src)\<close> for \<open>lo \<le> hi \<le> length dst\<close>, returning \<open>dst\<close>
  as it is afterwards: the first \<open>min (hi - lo) (length src)\<close> bytes of \<open>src\<close>
  overwrite \<open>dst\<close> from index \<open>lo\<close>.
\<close>

definition copy :: "string \<Rightarrow> nat \<Rightarrow> nat \<Rightarrow> string \<Rightarrow> string" where
  "copy dst lo hi src =
     (let n = min (hi - lo) (length src) in take lo dst @ take n src @ drop (lo + n) dst)"

text \<open>
  Lines 173 to 178 of \<^verbatim>\<open>structEncoder\<close>: the bytes stored in the field's spec,
  left-padded when they are shorter than the field and \<^verbatim>\<open>leftpad\<close> is set.
\<close>

definition padValue :: "fieldSpec \<Rightarrow> Type \<Rightarrow> string \<Rightarrow> fieldSpec" where
  "padValue spec t v =
     (if int (length v) < fieldLength spec \<and> leftpad spec
      then spec\<lparr>bytes :=
             copy (replicate (nat (fieldLength spec)) (leftpadChar spec t))
                  (nat (fieldLength spec) - length v) (nat (fieldLength spec)) v\<rparr>
      else spec\<lparr>bytes := v\<rparr>)"

text \<open>\<^verbatim>\<open>encodeSpecs\<close>: its first loop, its second loop, and the function.\<close>

fun lineLength :: "fieldSpec list \<Rightarrow> int \<Rightarrow> int" where
  "lineLength [] ll = ll"
| "lineLength (spec # specs) ll = lineLength specs (if endPos spec > ll then endPos spec else ll)"

fun copySpecs :: "fieldSpec list \<Rightarrow> string \<Rightarrow> error + string" where
  "copySpecs [] data = Inr data"
| "copySpecs (spec # specs) data =
     (if startPos spec - 1 < 0 \<or> endPos spec < startPos spec - 1 \<or> int (length data) < endPos spec
      then Inl (Panic ''slice bounds out of range'')
      else copySpecs specs (copy data (nat (startPos spec - 1)) (nat (endPos spec)) (bytes spec)))"

definition encodeSpecs :: "fieldSpec list \<Rightarrow> error + string" where
  "encodeSpecs specs =
     (let ll = lineLength specs 0;
          data = replicate (nat ll) (CHR '' '')
      in copySpecs specs data)"

subsection \<open>The value encoders\<close>

text \<open>
  \<^verbatim>\<open>newValueEncoder\<close> chooses an encoder by the type and applies it to a value of
  that type. Every encoder is a function on all values, so each has a last
  equation for the values of a kind that \<^verbatim>\<open>newValueEncoder\<close> never hands to it:
  the source calls an encoder only on a value of the type it was chosen for, no
  call from \<^verbatim>\<open>Encode\<close> reaches these equations, and no property below reads them.
  They are stand-ins, not a description of package reflect on such values: the
  last equation of \<open>stringEncoder\<close> builds its text from the type's name, where
  \<^verbatim>\<open>Value.String\<close> uses the package-qualified \<^verbatim>\<open>Type.String()\<close>; the last
  equation of \<open>ptrInterfaceEncoder\<close> panics on every value that is neither a
  pointer nor an interface, where \<^verbatim>\<open>IsNil\<close> answers for a map, slice, chan or
  func and the nil ones among them would encode as nil does; the panic of
  \<open>textMarshalerEncoder\<close> stands for the failed type assertion.
\<close>

definition textMarshalerEncoder :: "Value \<Rightarrow> error + string" where
  "textMarshalerEncoder v =
     (case MarshalText (info v) of
        Some r \<Rightarrow> r
      | None \<Rightarrow> Inl (Panic ''interface conversion: not an encoding.TextMarshaler''))"

fun stringEncoder :: "Value \<Rightarrow> error + string" where
  "stringEncoder (StringV i s) = Inr s"
| "stringEncoder v = Inr (''<'' @ TypeName (info v) @ '' Value>'')"

text \<open>\<^verbatim>\<open>int(v.Int())\<close> keeps the value: \<^verbatim>\<open>int\<close> has 64 bits.\<close>

fun intEncoder :: "Value \<Rightarrow> error + string" where
  "intEncoder (IntV k i n) = Inr (Itoa (sint n))"
| "intEncoder v = Inl (Panic ''reflect: call of reflect.Value.Int on a value of another kind'')"

fun floatEncoder :: "nat \<Rightarrow> nat \<Rightarrow> Value \<Rightarrow> error + string" where
  "floatEncoder perc bitSize (FloatV k i f) = Inr (FormatFloat f perc bitSize)"
| "floatEncoder perc bitSize v =
     Inl (Panic ''reflect: call of reflect.Value.Float on a value of another kind'')"

definition nilEncoder :: "Value \<Rightarrow> error + string" where
  "nilEncoder v = Inr []"

definition unknownTypeEncoder :: "Type \<Rightarrow> Value \<Rightarrow> error + string" where
  "unknownTypeEncoder t v = Inl (MarshalInvalidTypeError (Name_of t))"

text \<open>
  \<^verbatim>\<open>parseTag\<close> is not among the source files; the encoders take it as the parameter
  \<open>pt\<close>, \<open>None\<close> standing for a returned error. \<^verbatim>\<open>newValueEncoder(t)(v)\<close> is
  \<open>newValueEncoder pt t v\<close>, where \<open>None\<close> is the nil type. The loop of
  \<^verbatim>\<open>structEncoder\<close> is \<open>structEncoder_loop\<close>, on the fields still to visit and the
  specs collected so far.
\<close>

function (sequential)
    newValueEncoder :: "(string \<Rightarrow> fieldSpec option) \<Rightarrow> Type option \<Rightarrow> Value \<Rightarrow> error + string"
and ptrInterfaceEncoder :: "(string \<Rightarrow> fieldSpec option) \<Rightarrow> Value \<Rightarrow> error + string"
and structEncoder :: "(string \<Rightarrow> fieldSpec option) \<Rightarrow> Value \<Rightarrow> error + string"
and structEncoder_loop ::
      "(string \<Rightarrow> fieldSpec option) \<Rightarrow> (string \<times> Value) list \<Rightarrow> fieldSpec list
       \<Rightarrow> error + fieldSpec list"
where
  "newValueEncoder pt None v = nilEncoder v"
| "newValueEncoder pt (Some t) v =
     (if Implements t then textMarshalerEncoder v
      else case Kind_of t of
        reflect_Ptr \<Rightarrow> ptrInterfaceEncoder pt v
      | reflect_Interface \<Rightarrow> ptrInterfaceEncoder pt v
      | reflect_Struct \<Rightarrow> structEncoder pt v
      | reflect_String \<Rightarrow> stringEncoder v
      | reflect_Int \<Rightarrow> intEncoder v
      | reflect_Int64 \<Rightarrow> intEncoder v
      | reflect_Int32 \<Rightarrow> intEncoder v
      | reflect_Int16 \<Rightarrow> intEncoder v
      | reflect_Int8 \<Rightarrow> intEncoder v
      | reflect_Float64 \<Rightarrow> floatEncoder 2 64 v
      | reflect_Float32 \<Rightarrow> floatEncoder 2 32 v
      | _ \<Rightarrow> unknownTypeEncoder t v)"
| "ptrInterfaceEncoder pt (NilPtr i t) = nilEncoder (NilPtr i t)"
| "ptrInterfaceEncoder pt (NilInterface i) = nilEncoder (NilInterface i)"
| "ptrInterfaceEncoder pt (Pointer i e) = newValueEncoder pt (Some (Type_of e)) e"
| "ptrInterfaceEncoder pt (InterfaceV i e) = newValueEncoder pt (Some (Type_of e)) e"
| "ptrInterfaceEncoder pt v =
     Inl (Panic ''reflect: call of reflect.Value.Elem on a value of another kind'')"
| "structEncoder pt (StructV i fs) =
     (case structEncoder_loop pt fs [] of
        Inl err \<Rightarrow> Inl err
      | Inr specs \<Rightarrow> encodeSpecs specs)"
| "structEncoder pt v =
     Inl (Panic ''reflect: NumField of non-struct type'')"
| "structEncoder_loop pt [] specs = Inr specs"
| "structEncoder_loop pt ((tag, fv) # fs) specs =
     (case pt tag of
        None \<Rightarrow> structEncoder_loop pt fs specs
      | Some spec \<Rightarrow>
          (case newValueEncoder pt (Some (Type_of fv)) fv of
             Inl err \<Rightarrow> Inl err
           | Inr v \<Rightarrow> structEncoder_loop pt fs (specs @ [padValue spec (Type_of fv) v])))"
  by pat_completeness auto
termination
  by (relation "measure (\<lambda>x. case x of
         Inl (Inl (pt, t, v)) \<Rightarrow> 2 * size v + 1
       | Inl (Inr (pt, v)) \<Rightarrow> 2 * size v
       | Inr (Inl (pt, v)) \<Rightarrow> 2 * size v
       | Inr (Inr (pt, fs, specs)) \<Rightarrow> 2 * size_list (size_prod (\<lambda>_. 0) size) fs + 1)")
     auto

declare newValueEncoder.simps [simp del]

subsection \<open>The position declaration\<close>

text \<open>\<^verbatim>\<open>strings.Split(s, ",")\<close> for a one-byte separator.\<close>

fun split :: "char \<Rightarrow> string \<Rightarrow> string list" where
  "split c [] = [[]]"
| "split c (x # xs) =
     (if x = c then [] # split c xs
      else case split c xs of t # ts \<Rightarrow> (x # t) # ts | [] \<Rightarrow> [[x]])"

definition is_digit :: "char \<Rightarrow> bool" where
  "is_digit c = (c \<in> set ''0123456789'')"

definition numeric :: "string \<Rightarrow> bool" where
  "numeric s = (s \<noteq> [] \<and> list_all is_digit s)"

definition decimal :: "string \<Rightarrow> nat" where
  "decimal s = foldl (\<lambda>n c. 10 * n + (of_char c - 48)) 0 s"

text \<open>
  Modelled from the spec: the two bounds of a position declaration, for
  \<^verbatim>\<open>parseTag\<close> below. The layout has empty bytes; it is refused when a bound
  is not numeric, when the end lies before the start, and when the start is
  not positive (every layout of the spec has \<open>1 \<le> startPos \<le> endPos\<close>).
\<close>

definition bounds :: "string \<Rightarrow> string \<Rightarrow> bool \<Rightarrow> fieldSpec option" where
  "bounds a b lp =
     (if numeric a \<and> numeric b
      then let s = int (decimal a); e = int (decimal b)
           in if e < s \<or> s < 1 then None
              else Some \<lparr>startPos = s, endPos = e, leftpad = lp, bytes = []\<rparr>
      else None)"

text \<open>
  Modelled from the spec: \<^verbatim>\<open>parseTag\<close>, which the source files call and do not
  contain. The spec (4.1) expects the shape \<^verbatim>\<open><start>,<end>[,leftpad]\<close> and
  skips a declaration with a wrong token count, non-numeric bounds or
  \<open>end < start\<close>; its data model (3) gives every layout \<open>1 \<le> startPos \<le> endPos\<close>
  and empty bytes. A bound is numeric when it is a non-empty run of decimal
  digits; a third token other than \<^verbatim>\<open>leftpad\<close> is not of the expected shape.
\<close>

definition parseTag :: "string \<Rightarrow> fieldSpec option" where
  "parseTag tag =
     (case split (CHR '','') tag of
        [a, b] \<Rightarrow> bounds a b False
      | [a, b, c] \<Rightarrow> (if c = ''leftpad'' then bounds a b True else None)
      | _ \<Rightarrow> None)"

subsection \<open>The writer\<close>

text \<open>
  The encoder's \<^verbatim>\<open>*bufio.Writer\<close>: a state and the two methods the encoder
  calls, which answer an error (or none) and the state afterwards. What they do
  depends on the \<^verbatim>\<open>io.Writer\<close> underneath, so they are part of the value.
\<close>

record 'w bufio_Writer =
  sink :: 'w
  do_write :: "string \<Rightarrow> 'w \<Rightarrow> error option \<times> 'w"
  do_flush :: "'w \<Rightarrow> error option \<times> 'w"

definition Write :: "'w bufio_Writer \<Rightarrow> string \<Rightarrow> error option \<times> 'w bufio_Writer" where
  "Write b p = (case do_write b p (sink b) of (err, s) \<Rightarrow> (err, b\<lparr>sink := s\<rparr>))"

definition Flush :: "'w bufio_Writer \<Rightarrow> error option \<times> 'w bufio_Writer" where
  "Flush b = (case do_flush b (sink b) of (err, s) \<Rightarrow> (err, b\<lparr>sink := s\<rparr>))"

record 'w Encoder =
  w :: "'w bufio_Writer"
  LineEnd :: string

text \<open>\<^verbatim>\<open>NewEncoder\<close>, on the writer that \<^verbatim>\<open>bufio.NewWriter(w)\<close> returns.\<close>

definition NewEncoder :: "'w bufio_Writer \<Rightarrow> 'w Encoder" where
  "NewEncoder b = \<lparr>w = b, LineEnd = [CHR 0x0A]\<rparr>"

text \<open>
  A \<^verbatim>\<open>bufio.Writer\<close> of the default size, 4096 bytes, over a \<^verbatim>\<open>bytes.Buffer\<close>:
  \<open>pending\<close> is what the writer holds back, \<open>out\<close> what the buffer has
  received. Neither method fails. \<open>buffer_write\<close> is the loop of
  \<^verbatim>\<open>bufio.Writer.Write\<close>: while the bytes do not fit, an empty writer passes
  them on whole, and one that holds bytes fills up and flushes; what is left is
  held back.
\<close>

record buffer =
  pending :: string
  out :: string

function buffer_write :: "string \<Rightarrow> buffer \<Rightarrow> error option \<times> buffer" where
  "buffer_write p b =
     (if length p > 4096 - length (pending b)
      then (if pending b = []
            then buffer_write [] (b\<lparr>out := out b @ p\<rparr>)
            else let n = 4096 - length (pending b)
                 in buffer_write (drop n p) \<lparr>pending = [], out = out b @ pending b @ take n p\<rparr>)
      else (None, b\<lparr>pending := pending b @ p\<rparr>))"
  by pat_completeness auto
termination
  by (relation "measures [\<lambda>(p, b). length p, \<lambda>(p, b). length (pending b)]") auto

declare buffer_write.simps [simp del]

definition buffer_flush :: "buffer \<Rightarrow> error option \<times> buffer" where
  "buffer_flush b = (None, \<lparr>pending = [], out = out b @ pending b\<rparr>)"

definition NewBuffer :: "buffer bufio_Writer" where
  "NewBuffer = \<lparr>sink = \<lparr>pending = [], out = []\<rparr>, do_write = buffer_write, do_flush = buffer_flush\<rparr>"

text \<open>\<^verbatim>\<open>buff.Bytes()\<close>: nil (\<open>None\<close>) as long as the buffer has received nothing.\<close>

definition Bytes :: "buffer \<Rightarrow> string option" where
  "Bytes b = (if out b = [] then None else Some (out b))"

subsection \<open>Encode and Marshal\<close>

definition writeLine ::
  "(string \<Rightarrow> fieldSpec option) \<Rightarrow> 'w Encoder \<Rightarrow> Value \<Rightarrow> error option \<times> 'w Encoder" where
  "writeLine pt e v =
     (case newValueEncoder pt (Some (Type_of v)) v of
        Inl err \<Rightarrow> (Some err, e)
      | Inr b \<Rightarrow> (case Write (w e) b of (err, w') \<Rightarrow> (err, e\<lparr>w := w'\<rparr>)))"

text \<open>
  The loop of \<^verbatim>\<open>writeLines\<close> on the elements still to write; \<^verbatim>\<open>i != v.Len()-1\<close>
  says that the element is not the last one.
\<close>

fun writeLines_loop ::
  "(string \<Rightarrow> fieldSpec option) \<Rightarrow> 'w Encoder \<Rightarrow> string \<Rightarrow> Value list
   \<Rightarrow> error option \<times> 'w Encoder" where
  "writeLines_loop pt e lineEnd [] = (None, e)"
| "writeLines_loop pt e lineEnd (x # xs) =
     (case writeLine pt e x of
        (Some err, e') \<Rightarrow> (Some err, e')
      | (None, e') \<Rightarrow>
          (if xs \<noteq> []
           then (case Write (w e') lineEnd of
                   (Some err, w') \<Rightarrow> (Some err, e'\<lparr>w := w'\<rparr>)
                 | (None, w') \<Rightarrow> writeLines_loop pt (e'\<lparr>w := w'\<rparr>) lineEnd xs)
           else writeLines_loop pt e' lineEnd xs))"

text \<open>
  \<^verbatim>\<open>writeLines\<close>. \<^verbatim>\<open>Encode\<close> calls it on a slice only; the last equation is a
  stand-in for the other values, among which \<^verbatim>\<open>Len\<close> accepts an array, a
  string, a chan and a map, and no property below reads it.
\<close>

fun writeLines ::
  "(string \<Rightarrow> fieldSpec option) \<Rightarrow> 'w Encoder \<Rightarrow> Value \<Rightarrow> error option \<times> 'w Encoder" where
  "writeLines pt e (SliceV i xs) =
     (let lineEnd = (if length (LineEnd e) = 0 then [CHR 0x0A] else LineEnd e)
      in writeLines_loop pt e lineEnd xs)"
| "writeLines pt e v =
     (Some (Panic ''reflect: call of reflect.Value.Len on a value of another kind''), e)"

text \<open>
  The loop at the head of \<^verbatim>\<open>Encode\<close>, which follows pointers and interfaces;
  \<open>None\<close> is the invalid \<^verbatim>\<open>reflect.Value\<close> that \<^verbatim>\<open>Elem\<close> returns on nil.
\<close>

fun unwrap :: "Value \<Rightarrow> Value option" where
  "unwrap (Pointer i e) = unwrap e"
| "unwrap (InterfaceV i e) = unwrap e"
| "unwrap (NilPtr i t) = None"
| "unwrap (NilInterface i) = None"
| "unwrap v = Some v"

text \<open>\<^verbatim>\<open>Encode\<close>; the argument \<open>None\<close> is the nil interface.\<close>

definition Encode ::
  "(string \<Rightarrow> fieldSpec option) \<Rightarrow> 'w Encoder \<Rightarrow> Value option \<Rightarrow> error option \<times> 'w Encoder" where
  "Encode pt e i =
     (case i of
        None \<Rightarrow> (None, e)
      | Some iv \<Rightarrow>
          (case (case unwrap iv of
                   Some (SliceV si xs) \<Rightarrow> writeLines pt e (SliceV si xs)
                 | _ \<Rightarrow> writeLine pt e iv) of
             (Some err, e') \<Rightarrow> (Some err, e')
           | (None, e') \<Rightarrow> (case Flush (w e') of (err, w') \<Rightarrow> (err, e'\<lparr>w := w'\<rparr>))))"

text \<open>\<^verbatim>\<open>Marshal\<close> returns the pair \<^verbatim>\<open>([]byte, error)\<close>; \<open>None\<close> is nil.\<close>

definition Marshal ::
  "(string \<Rightarrow> fieldSpec option) \<Rightarrow> Value option \<Rightarrow> string option \<times> error option" where
  "Marshal pt v =
     (case Encode pt (NewEncoder NewBuffer) v of
        (Some err, e) \<Rightarrow> (None, Some err)
      | (None, e) \<Rightarrow> (Bytes (sink (w e)), None))"

subsection \<open>Notions of the specification\<close>

text \<open>
  Canonical decimal text of an integer: decimal digits without a leading zero
  (the single digit 0 apart), after a minus sign exactly when the number is
  negative.
\<close>

definition unsigned_canonical :: "string \<Rightarrow> nat \<Rightarrow> bool" where
  "unsigned_canonical ds n = (numeric ds \<and> (hd ds = CHR ''0'' \<longrightarrow> ds = ''0'') \<and> decimal ds = n)"

definition canonical_decimal :: "string \<Rightarrow> int \<Rightarrow> bool" where
  "canonical_decimal txt i =
     (if i < 0 then txt \<noteq> [] \<and> hd txt = CHR ''-'' \<and> unsigned_canonical (tl txt) (nat (- i))
      else unsigned_canonical txt (nat i))"

text \<open>
  Fixed notation with \<open>prec\<close> fraction digits: an optional minus sign (present
  exactly when \<open>neg\<close>), integer digits without a leading zero, a point, and
  \<open>prec\<close> digits. Such a text has no plus sign and no exponent.
\<close>

definition fixed_notation :: "nat \<Rightarrow> bool \<Rightarrow> string \<Rightarrow> bool" where
  "fixed_notation prec neg txt =
     (let body = (if neg then tl txt else txt);
          ip = takeWhile (\<lambda>c. c \<noteq> CHR ''.'') body;
          rest = dropWhile (\<lambda>c. c \<noteq> CHR ''.'') body
      in (neg \<longrightarrow> txt \<noteq> [] \<and> hd txt = CHR ''-'')
         \<and> numeric ip \<and> (hd ip = CHR ''0'' \<longrightarrow> ip = ''0'')
         \<and> rest \<noteq> [] \<and> length (tl rest) = prec \<and> list_all is_digit (tl rest))"

text \<open>
  The innermost type of a field: pointer layers are taken off until a type that
  is not a pointer, or that serializes itself, is reached.
\<close>

fun leafType :: "Type \<Rightarrow> Type" where
  "leafType (PtrTo n m e) = (if m then PtrTo n m e else leafType e)"
| "leafType (Plain k n m) = Plain k n m"

definition numeric_kind :: "Kind \<Rightarrow> bool" where
  "numeric_kind k = (k \<in> {reflect_Int, reflect_Int8, reflect_Int16, reflect_Int32, reflect_Int64,
                          reflect_Float32, reflect_Float64})"

text \<open>The fill character of the padding policy, in the spec's words.\<close>

definition fill_char :: "Type \<Rightarrow> char" where
  "fill_char t =
     (if \<not> Implements (leafType t) \<and> numeric_kind (Kind_of (leafType t))
      then CHR ''0'' else CHR '' '')"

text \<open>The layouts of the fields whose position declaration is accepted, in field order.\<close>

definition accepted :: "(string \<Rightarrow> fieldSpec option) \<Rightarrow> (string \<times> Value) list \<Rightarrow> fieldSpec list" where
  "accepted pt fs = List.map_filter (\<lambda>f. pt (fst f)) fs"

text \<open>
  \<open>writes s j\<close>: the field with spec \<open>s\<close> has a byte for index \<open>j\<close> of the line
  (indices count from 0), that is, \<open>j\<close> lies in the field's range and within
  the field's bytes. \<open>byte_at specs j\<close> is the byte of the last spec of the
  list that has one for \<open>j\<close>.
\<close>

definition writes :: "fieldSpec \<Rightarrow> nat \<Rightarrow> bool" where
  "writes s j =
     (startPos s - 1 \<le> int j
      \<and> int j < startPos s - 1 + min (fieldLength s) (int (length (bytes s))))"

definition byte_at :: "fieldSpec list \<Rightarrow> nat \<Rightarrow> char option" where
  "byte_at specs j =
     (case filter (\<lambda>s. writes s j) (rev specs) of
        [] \<Rightarrow> None
      | s # _ \<Rightarrow> Some (bytes s ! (j - nat (startPos s - 1))))"

definition valid_layout :: "fieldSpec \<Rightarrow> bool" where
  "valid_layout s = (1 \<le> startPos s \<and> startPos s \<le> endPos s)"

text \<open>
  A position declaration that the spec calls malformed: the token count is
  neither 2 nor 3, a bound is not numeric, or the end lies before the start. A
  field without declaration has the empty tag, of one token.
\<close>

definition malformed :: "string \<Rightarrow> bool" where
  "malformed tag =
     (case split (CHR '','') tag of
        [a, b] \<Rightarrow> \<not> numeric a \<or> \<not> numeric b \<or> decimal b < decimal a
      | [a, b, c] \<Rightarrow> \<not> numeric a \<or> \<not> numeric b \<or> decimal b < decimal a
      | _ \<Rightarrow> True)"

text \<open>
  For the writer: \<open>Write_all e ps\<close> calls \<^verbatim>\<open>e.w.Write\<close> on the byte strings
  \<open>ps\<close> in turn and stops at the first error; \<open>between sep bs\<close> puts \<open>sep\<close>
  between consecutive elements of \<open>bs\<close>; \<open>received b\<close> is everything the
  in-memory writer was given, flushed or not.
\<close>

fun Write_all :: "'w Encoder \<Rightarrow> string list \<Rightarrow> error option \<times> 'w Encoder" where
  "Write_all e [] = (None, e)"
| "Write_all e (p # ps) =
     (case Write (w e) p of
        (Some err, w') \<Rightarrow> (Some err, e\<lparr>w := w'\<rparr>)
      | (None, w') \<Rightarrow> Write_all (e\<lparr>w := w'\<rparr>) ps)"

fun between :: "'a \<Rightarrow> 'a list \<Rightarrow> 'a list" where
  "between sep [] = []"
| "between sep [b] = [b]"
| "between sep (b # bs) = b # sep # between sep bs"

definition received :: "buffer \<Rightarrow> string" where
  "received b = out b @ pending b"

definition lineEnd_of :: "'w Encoder \<Rightarrow> string" where
  "lineEnd_of e = (if LineEnd e = [] then [CHR 0x0A] else LineEnd e)"

definition is_buffer :: "buffer bufio_Writer \<Rightarrow> bool" where
  "is_buffer b = (do_write b = buffer_write \<and> do_flush b = buffer_flush)"

section \<open>Properties\<close>

subsection \<open>Decimal text\<close>

lemma digit_cases: "d < 10 \<Longrightarrow> d = 0 \<or> d = 1 \<or> d = 2 \<or> d = 3 \<or> d = 4 \<or> d = 5 \<or> d = 6 \<or> d = 7 \<or> d = 8 \<or> d = (9::nat)"
  by arith

lemma of_char_digit: "d < 10 \<Longrightarrow> (of_char (digit d) :: nat) = 48 + d"
  using digit_cases [of d] by (auto simp: digit_def)

lemma digit_in: "is_digit (digit d)"
  unfolding digit_def is_digit_def by (rule nth_mem) simp

lemma digit_eq_0: "d < 10 \<Longrightarrow> digit d = CHR ''0'' \<longleftrightarrow> d = 0"
  using digit_cases [of d] by (auto simp: digit_def)

lemma digits_nonempty: "digits n \<noteq> []"
  by (subst digits.simps) simp

lemma digits_numeric: "numeric (digits n)"
proof (induction n rule: digits.induct)
  case (1 n)
  show ?case
  proof (cases "n < 10")
    case True
    then show ?thesis using digit_in [of n] by (subst digits.simps) (simp add: numeric_def)
  next
    case False
    then show ?thesis using 1 digit_in [of "n mod 10"]
      by (subst digits.simps) (simp add: numeric_def)
  qed
qed

lemma decimal_snoc: "decimal (s @ [c]) = 10 * decimal s + (of_char c - 48)"
  by (simp add: decimal_def)

lemma decimal_digits: "decimal (digits n) = n"
proof (induction n rule: digits.induct)
  case (1 n)
  show ?case
  proof (cases "n < 10")
    case True
    then show ?thesis by (subst digits.simps) (simp add: decimal_def of_char_digit)
  next
    case False
    then show ?thesis using 1
      by (subst digits.simps) (simp add: decimal_snoc of_char_digit)
  qed
qed

lemma digits_0: "digits 0 = ''0''"
  by (subst digits.simps) (simp add: digit_def)

lemma hd_digits: "hd (digits n) = CHR ''0'' \<longleftrightarrow> n = 0"
proof (induction n rule: digits.induct)
  case (1 n)
  show ?case
  proof (cases "n < 10")
    case True
    then show ?thesis by (subst digits.simps) (simp add: digit_eq_0)
  next
    case False
    then have "hd (digits n) = hd (digits (n div 10))"
      by (subst digits.simps) (simp add: digits_nonempty)
    with 1 False show ?thesis by simp
  qed
qed

lemma length_digits: "n < 10 ^ p \<Longrightarrow> 0 < p \<Longrightarrow> length (digits n) \<le> p"
proof (induction n arbitrary: p rule: digits.induct)
  case (1 n)
  show ?case
  proof (cases "n < 10")
    case True
    then show ?thesis using 1(3) by (subst digits.simps) simp
  next
    case False
    then obtain q where p: "p = Suc q" using 1(3) by (cases p) auto
    with 1(2) False have q: "0 < q" by (cases q) auto
    from 1(2) p have "n div 10 < 10 ^ q" by (simp add: less_mult_imp_div_less mult.commute)
    with 1(1) [OF False _ q] have "length (digits (n div 10)) \<le> q" by simp
    with False p show ?thesis by (subst digits.simps) simp
  qed
qed

lemma unsigned_canonical_digits: "unsigned_canonical (digits n) n"
  by (simp add: unsigned_canonical_def digits_numeric decimal_digits hd_digits digits_0)

lemma canonical_Itoa: "canonical_decimal (Itoa i) i"
  by (simp add: canonical_decimal_def Itoa_def unsigned_canonical_digits)

lemma not_digit_dot: "\<not> is_digit (CHR ''.'')"
  by (simp add: is_digit_def)

lemma numeric_no_dot: "numeric s \<Longrightarrow> c \<in> set s \<Longrightarrow> c \<noteq> CHR ''.''"
  using not_digit_dot by (auto simp: numeric_def list_all_iff)

lemma zero_pad_digits:
  assumes "k < 10 ^ p" "0 < p"
  shows "length (zero_pad p (digits k)) = p \<and> list_all is_digit (zero_pad p (digits k))"
proof -
  have "length (digits k) \<le> p" using assms by (rule length_digits)
  moreover have "list_all is_digit (digits k)"
    using digits_numeric [of k] by (simp add: numeric_def)
  moreover have "is_digit (CHR ''0'')" by (simp add: is_digit_def)
  ultimately show ?thesis by (auto simp: zero_pad_def list_all_iff)
qed

subsection \<open>Leaf scalars\<close>

lemma fixed_notation_FormatFloat:
  assumes "0 < prec"
  shows "fixed_notation prec neg (FormatFloat (Finite neg m e) prec bitSize)"
proof -
  define r where "r = (if 0 \<le> e then m * 2 ^ nat e * 10 ^ prec
               else round_half_even (m * 10 ^ prec) (2 ^ nat (- e)))"
  define ip where "ip = digits (r div 10 ^ prec)"
  define fp where "fp = zero_pad prec (digits (r mod 10 ^ prec))"
  have shape: "FormatFloat (Finite neg m e) prec bitSize
      = (if neg then ''-'' else []) @ ip @ CHR ''.'' # fp"
    using assms by (simp add: r_def ip_def fp_def Let_def)
  have ip: "numeric ip" "hd ip = CHR ''0'' \<longrightarrow> ip = ''0''"
    by (simp_all add: ip_def digits_numeric hd_digits digits_0)
  have fp: "length fp = prec" "list_all is_digit fp"
    using zero_pad_digits [of "r mod 10 ^ prec" prec] assms by (simp_all add: fp_def)
  have tw: "takeWhile (\<lambda>c. c \<noteq> CHR ''.'') (ip @ CHR ''.'' # fp) = ip"
    using numeric_no_dot [OF ip(1)] by (simp add: takeWhile_append2)
  have dw: "dropWhile (\<lambda>c. c \<noteq> CHR ''.'') (ip @ CHR ''.'' # fp) = CHR ''.'' # fp"
    using numeric_no_dot [OF ip(1)] by (simp add: dropWhile_append2)
  show ?thesis
    unfolding shape fixed_notation_def using ip fp by (simp add: tw dw)
qed

text \<open>
  C6, amended. A string encodes to its bytes, a signed integer of any width to
  its canonical decimal text, and a finite 32- or 64-bit float to fixed notation
  with exactly two fraction digits, whatever the value, zero included. (An
  infinity or NaN is written \<^verbatim>\<open>+Inf\<close>, \<^verbatim>\<open>-Inf\<close> or \<^verbatim>\<open>NaN\<close>.)
\<close>

theorem leaf_scalar_encoding:
  assumes "MarshalText i = None"
  shows "newValueEncoder pt (Some (Type_of (StringV i s))) (StringV i s) = Inr s
       \<and> newValueEncoder pt (Some (Type_of (IntV k i n))) (IntV k i n) = Inr (Itoa (sint n))
       \<and> canonical_decimal (Itoa (sint n)) (sint n)
       \<and> newValueEncoder pt (Some (Type_of (FloatV fk i (Finite neg m e)))) (FloatV fk i (Finite neg m e))
           = Inr (FormatFloat (Finite neg m e) 2 (case fk of KFloat32 \<Rightarrow> 32 | KFloat64 \<Rightarrow> 64))
       \<and> fixed_notation 2 neg (FormatFloat (Finite neg m e) 2 (case fk of KFloat32 \<Rightarrow> 32 | KFloat64 \<Rightarrow> 64))"
proof -
  have s: "newValueEncoder pt (Some (Type_of (StringV i s))) (StringV i s) = Inr s"
    using assms by (simp add: implements_def newValueEncoder.simps)
  have n: "newValueEncoder pt (Some (Type_of (IntV k i n))) (IntV k i n) = Inr (Itoa (sint n))"
    using assms by (cases k) (simp_all add: implements_def newValueEncoder.simps)
  have f: "newValueEncoder pt (Some (Type_of (FloatV fk i (Finite neg m e)))) (FloatV fk i (Finite neg m e))
           = Inr (FormatFloat (Finite neg m e) 2 (case fk of KFloat32 \<Rightarrow> 32 | KFloat64 \<Rightarrow> 64))"
    using assms by (cases fk) (simp_all add: implements_def newValueEncoder.simps del: FormatFloat.simps)
  show ?thesis
    using s n f canonical_Itoa [of "sint n"] fixed_notation_FormatFloat [of 2 neg m e]
    by simp
qed

text \<open>The zero values: the empty string, 0 and 0.0 are encoded, not omitted.\<close>

theorem leaf_scalar_encoding_witness:
  "newValueEncoder parseTag (Some (Type_of (StringV \<lparr>TypeName = ''string'', MarshalText = None\<rparr> [])))
       (StringV \<lparr>TypeName = ''string'', MarshalText = None\<rparr> []) = Inr []
   \<and> newValueEncoder parseTag (Some (Type_of (IntV KInt8 \<lparr>TypeName = ''string'', MarshalText = None\<rparr> 0)))
       (IntV KInt8 \<lparr>TypeName = ''string'', MarshalText = None\<rparr> 0) = Inr ''0''
   \<and> canonical_decimal ''0'' 0
   \<and> newValueEncoder parseTag (Some (Type_of (FloatV KFloat32 \<lparr>TypeName = ''string'', MarshalText = None\<rparr> (Finite False 0 0))))
       (FloatV KFloat32 \<lparr>TypeName = ''string'', MarshalText = None\<rparr> (Finite False 0 0)) = Inr ''0.00''
   \<and> fixed_notation 2 False ''0.00''"
  using leaf_scalar_encoding [of "\<lparr>TypeName = ''string'', MarshalText = None\<rparr>" parseTag "[]" KInt8 0 KFloat32 False 0 0]
  by (simp add: Itoa_def digits.simps digit_def zero_pad_def)

text \<open>
  C6 as stated fails on the float64 value positive infinity: its text has a
  forced sign and no fraction digits.
\<close>

theorem float_infinity_counterexample:
  "newValueEncoder parseTag (Some (Type_of (FloatV KFloat64 \<lparr>TypeName = ''float64'', MarshalText = None\<rparr> (Infinite False))))
       (FloatV KFloat64 \<lparr>TypeName = ''float64'', MarshalText = None\<rparr> (Infinite False)) = Inr ''+Inf''
   \<and> \<not> fixed_notation 2 False ''+Inf''"
  by (simp add: implements_def newValueEncoder.simps fixed_notation_def numeric_def is_digit_def)

subsection \<open>Unsupported types\<close>

text \<open>
  C7. A value whose type does not implement TextMarshaler and whose kind is none
  of pointer, interface, struct, string, signed integer, float32 and float64 is
  refused by the dispatcher with a MarshalInvalidTypeError that carries the
  type's name; at top level (a slice apart, which \<^verbatim>\<open>Encode\<close> writes line by
  line) \<^verbatim>\<open>Encode\<close> and \<^verbatim>\<open>Marshal\<close> return that error.
\<close>

theorem unknown_type_fails:
  assumes "\<not> Implements (Type_of v)"
    and "Kind_of (Type_of v) \<notin> {reflect_Ptr, reflect_Interface, reflect_Struct, reflect_String,
           reflect_Int, reflect_Int64, reflect_Int32, reflect_Int16, reflect_Int8,
           reflect_Float64, reflect_Float32}"
  shows "newValueEncoder pt (Some (Type_of v)) v = Inl (MarshalInvalidTypeError (Name_of (Type_of v)))
       \<and> (Kind_of (Type_of v) \<noteq> reflect_Slice \<longrightarrow>
            Encode pt e (Some v) = (Some (MarshalInvalidTypeError (Name_of (Type_of v))), e)
          \<and> Marshal pt (Some v) = (None, Some (MarshalInvalidTypeError (Name_of (Type_of v)))))"
proof -
  have enc: "newValueEncoder pt (Some (Type_of v)) v = Inl (MarshalInvalidTypeError (Name_of (Type_of v)))"
  proof (cases v)
    case (OtherV k i)
    then show ?thesis using assms(1)
      by (cases k) (simp_all add: unknownTypeEncoder_def newValueEncoder.simps)
  next
    case (IntV k i n)
    then show ?thesis using assms(2) by (cases k) simp_all
  next
    case (FloatV k i f)
    then show ?thesis using assms(2) by (cases k) simp_all
  qed (use assms in \<open>simp_all add: unknownTypeEncoder_def newValueEncoder.simps\<close>)
  have top: "Encode pt e' (Some v) = (Some (MarshalInvalidTypeError (Name_of (Type_of v))), e')"
    if "Kind_of (Type_of v) \<noteq> reflect_Slice" for e' :: "'b Encoder"
  proof -
    have "unwrap v = Some v" using assms(2) that by (cases v) simp_all
    moreover have "\<nexists>si xs. v = SliceV si xs" using that by auto
    ultimately show ?thesis using enc
      by (cases v) (simp_all add: Encode_def writeLine_def)
  qed
  show ?thesis using enc top [of e] top [of "NewEncoder NewBuffer"] by (simp add: Marshal_def)
qed

text \<open>A boolean at top level.\<close>

theorem unknown_type_fails_witness:
  "newValueEncoder parseTag (Some (Type_of (OtherV KBool \<lparr>TypeName = ''bool'', MarshalText = None\<rparr>)))
      (OtherV KBool \<lparr>TypeName = ''bool'', MarshalText = None\<rparr>) = Inl (MarshalInvalidTypeError ''bool'')
   \<and> Encode parseTag (NewEncoder NewBuffer) (Some (OtherV KBool \<lparr>TypeName = ''bool'', MarshalText = None\<rparr>))
       = (Some (MarshalInvalidTypeError ''bool''), NewEncoder NewBuffer)
   \<and> Marshal parseTag (Some (OtherV KBool \<lparr>TypeName = ''bool'', MarshalText = None\<rparr>))
       = (None, Some (MarshalInvalidTypeError ''bool''))"
  using unknown_type_fails [of "OtherV KBool \<lparr>TypeName = ''bool'', MarshalText = None\<rparr>" parseTag "NewEncoder NewBuffer"]
  by (simp add: implements_def)

subsection \<open>The line buffer\<close>

lemma copy_length: "lo \<le> hi \<Longrightarrow> hi \<le> length dst \<Longrightarrow> length (copy dst lo hi src) = length dst"
  by (simp add: copy_def Let_def min_def)

lemma copy_nth:
  assumes "lo \<le> hi" "hi \<le> length dst" "j < length dst"
  shows "copy dst lo hi src ! j
       = (if lo \<le> j \<and> j < lo + min (hi - lo) (length src) then src ! (j - lo) else dst ! j)"
proof -
  define n where "n = min (hi - lo) (length src)"
  have n: "n \<le> length src" "lo + n \<le> length dst" using assms by (simp_all add: n_def)
  have c: "copy dst lo hi src = take lo dst @ take n src @ drop (lo + n) dst"
    by (simp add: copy_def n_def Let_def)
  have l1: "length (take lo dst) = lo" using n by simp
  have l2: "length (take n src) = n" using n by simp
  show ?thesis
  proof (cases "j < lo")
    case True
    then show ?thesis using l1 by (simp add: c nth_append)
  next
    case False
    note jlo = this
    show ?thesis
    proof (cases "j < lo + n")
      case True
      then have "j - lo < n" using jlo by arith
      then have "(take lo dst @ take n src @ drop (lo + n) dst) ! j = src ! (j - lo)"
        using jlo l1 l2 by (simp add: nth_append)
      then show ?thesis using True jlo by (simp add: c n_def [symmetric])
    next
      case False
      then have "\<not> j - lo < n" using jlo by arith
      then have "(take lo dst @ take n src @ drop (lo + n) dst) ! j = drop (lo + n) dst ! (j - lo - n)"
        using jlo l1 l2 by (simp add: nth_append)
      also have "\<dots> = dst ! j" using False n assms by simp
      finally show ?thesis using False jlo by (simp add: c n_def [symmetric])
    qed
  qed
qed

lemma byte_at_Nil: "byte_at [] j = None"
  by (simp add: byte_at_def)

lemma byte_at_Cons:
  "byte_at (s # ss) j =
     (case byte_at ss j of
        Some c \<Rightarrow> Some c
      | None \<Rightarrow> if writes s j then Some (bytes s ! (j - nat (startPos s - 1))) else None)"
  by (simp add: byte_at_def split: list.splits)

lemma byte_at_append:
  "byte_at (xs @ ys) j = (case byte_at ys j of Some c \<Rightarrow> Some c | None \<Rightarrow> byte_at xs j)"
  by (simp add: byte_at_def split: list.splits)

lemma byte_at_None: "byte_at specs j = None \<longleftrightarrow> (\<forall>s\<in>set specs. \<not> writes s j)"
proof -
  have "byte_at specs j = None \<longleftrightarrow> filter (\<lambda>s. writes s j) (rev specs) = []"
    by (simp add: byte_at_def split: list.splits)
  also have "\<dots> \<longleftrightarrow> (\<forall>s\<in>set specs. \<not> writes s j)"
    by (simp add: filter_empty_conv)
  finally show ?thesis .
qed

lemma copySpecs_ok:
  assumes "\<forall>s\<in>set specs. valid_layout s \<and> endPos s \<le> int (length data)"
  shows "\<exists>data'. copySpecs specs data = Inr data' \<and> length data' = length data
           \<and> (\<forall>j<length data. data' ! j = (case byte_at specs j of None \<Rightarrow> data ! j | Some c \<Rightarrow> c))"
  using assms
proof (induction specs arbitrary: data)
  case Nil
  then show ?case by (simp add: byte_at_Nil)
next
  case (Cons s ss)
  define lo where "lo = nat (startPos s - 1)"
  define hi where "hi = nat (endPos s)"
  define data1 where "data1 = copy data lo hi (bytes s)"
  have s: "1 \<le> startPos s" "startPos s \<le> endPos s" "endPos s \<le> int (length data)"
    using Cons.prems by (simp_all add: valid_layout_def)
  have lohi: "lo \<le> hi" "hi \<le> length data" using s by (simp_all add: lo_def hi_def)
  have len1: "length data1 = length data" unfolding data1_def using lohi by (rule copy_length)
  have step: "copySpecs (s # ss) data = copySpecs ss data1"
    using s by (simp add: data1_def lo_def hi_def)
  have "\<forall>s\<in>set ss. valid_layout s \<and> endPos s \<le> int (length data1)"
    using Cons.prems len1 by simp
  from Cons.IH [OF this] obtain data' where d: "copySpecs ss data1 = Inr data'"
    "length data' = length data1"
    "\<forall>j<length data1. data' ! j = (case byte_at ss j of None \<Rightarrow> data1 ! j | Some c \<Rightarrow> c)"
    by blast
  have w: "writes s j \<longleftrightarrow> lo \<le> j \<and> j < lo + min (hi - lo) (length (bytes s))" for j
    using s by (auto simp: writes_def lo_def hi_def fieldLength_def min_def)
  have "data' ! j = (case byte_at (s # ss) j of None \<Rightarrow> data ! j | Some c \<Rightarrow> c)"
    if j: "j < length data" for j
  proof -
    have "data1 ! j = (if writes s j then bytes s ! (j - lo) else data ! j)"
      unfolding data1_def w using lohi j by (rule copy_nth)
    then show ?thesis using d(3) j len1
      by (simp add: byte_at_Cons lo_def split: option.splits)
  qed
  then show ?case using step d(1,2) len1 by simp
qed

lemma lineLength_Max: "lineLength specs ll = Max (insert ll (endPos ` set specs))"
proof (induction specs arbitrary: ll)
  case Nil
  then show ?case by simp
next
  case (Cons s ss)
  have "Max (insert ll (endPos ` set (s # ss))) = Max (insert (max ll (endPos s)) (endPos ` set ss))"
  proof (cases "set ss = {}")
    case True
    then show ?thesis by (simp add: max.commute)
  next
    case False
    then show ?thesis by (simp add: max.assoc max.commute max.left_commute)
  qed
  moreover have "(if endPos s > ll then endPos s else ll) = max ll (endPos s)" by simp
  ultimately show ?case using Cons.IH [of "max ll (endPos s)"] by simp
qed

lemma encodeSpecs_ok:
  assumes "\<forall>s\<in>set specs. valid_layout s"
  shows "\<exists>data. encodeSpecs specs = Inr data
           \<and> int (length data) = Max (insert 0 (endPos ` set specs))
           \<and> (\<forall>j<length data. data ! j = (case byte_at specs j of None \<Rightarrow> CHR '' '' | Some c \<Rightarrow> c))"
proof -
  define ll where "ll = lineLength specs 0"
  have ll: "ll = Max (insert 0 (endPos ` set specs))" by (simp add: ll_def lineLength_Max)
  then have ge: "0 \<le> ll" "\<forall>s\<in>set specs. endPos s \<le> ll" by simp_all
  have "\<forall>s\<in>set specs. valid_layout s \<and> endPos s \<le> int (length (replicate (nat ll) (CHR '' '')))"
    using assms ge by simp
  from copySpecs_ok [OF this] obtain data where d:
    "copySpecs specs (replicate (nat ll) (CHR '' '')) = Inr data" "length data = nat ll"
    "\<forall>j<nat ll. data ! j = (case byte_at specs j of None \<Rightarrow> replicate (nat ll) (CHR '' '') ! j | Some c \<Rightarrow> c)"
    by auto
  have "encodeSpecs specs = Inr data" using d(1) by (simp add: encodeSpecs_def ll_def)
  moreover have "int (length data) = Max (insert 0 (endPos ` set specs))" using d(2) ge ll by simp
  moreover have "\<forall>j<length data. data ! j = (case byte_at specs j of None \<Rightarrow> CHR '' '' | Some c \<Rightarrow> c)"
    using d(2,3) by (simp split: option.splits)
  ultimately show ?thesis by blast
qed

subsection \<open>Padding\<close>

lemma leftpadChar_fill_char: "leftpadChar f t = fill_char t"
proof (induction t)
  case (PtrTo n m e)
  then show ?case by (simp add: fill_char_def)
next
  case (Plain k n m)
  then show ?case by (cases k) (simp_all add: fill_char_def numeric_kind_def)
qed

lemma padValue_layout [simp]:
  "startPos (padValue s t v) = startPos s"
  "endPos (padValue s t v) = endPos s"
  "leftpad (padValue s t v) = leftpad s"
  "fieldLength (padValue s t v) = fieldLength s"
  "valid_layout (padValue s t v) = valid_layout s"
  by (simp_all add: padValue_def fieldLength_def valid_layout_def)

lemma padValue_bytes:
  "bytes (padValue s t v) =
     (if int (length v) < fieldLength s \<and> leftpad s
      then replicate (nat (fieldLength s) - length v) (fill_char t) @ v else v)"
proof (cases "int (length v) < fieldLength s \<and> leftpad s")
  case True
  then have "length v < nat (fieldLength s)" by arith
  then show ?thesis using True
    by (simp add: padValue_def copy_def leftpadChar_fill_char min_def)
next
  case False
  then show ?thesis by (auto simp: padValue_def)
qed

lemma padValue_eq:
  "padValue s t v = s\<lparr>bytes := (if int (length v) < fieldLength s \<and> leftpad s
      then replicate (nat (fieldLength s) - length v) (fill_char t) @ v else v)\<rparr>"
  using padValue_bytes [of s t v] by (simp add: padValue_def split: if_splits)

subsection \<open>The loop over the fields\<close>

lemma loop_prefix:
  "structEncoder_loop pt fs specs =
     (case structEncoder_loop pt fs [] of Inl e \<Rightarrow> Inl e | Inr r \<Rightarrow> Inr (specs @ r))"
proof (induction fs arbitrary: specs)
  case Nil
  then show ?case by simp
next
  case (Cons f fs)
  obtain tag fv where f: "f = (tag, fv)" by (cases f)
  show ?case
  proof (cases "pt tag")
    case None
    then show ?thesis using Cons.IH [of specs] by (simp add: f)
  next
    case (Some s)
    show ?thesis
    proof (cases "newValueEncoder pt (Some (Type_of fv)) fv")
      case (Inl e)
      then show ?thesis using Some by (simp add: f)
    next
      case (Inr v)
      define p where "p = padValue s (Type_of fv) v"
      have 1: "structEncoder_loop pt (f # fs) specs = structEncoder_loop pt fs (specs @ [p])"
        using Some Inr by (simp add: f p_def)
      have 2: "structEncoder_loop pt (f # fs) [] = structEncoder_loop pt fs [p]"
        using Some Inr by (simp add: f p_def)
      have a: "structEncoder_loop pt fs (specs @ [p])
          = (case structEncoder_loop pt fs [] of Inl e \<Rightarrow> Inl e | Inr r \<Rightarrow> Inr ((specs @ [p]) @ r))"
        by (rule Cons.IH)
      have b: "structEncoder_loop pt fs [p]
          = (case structEncoder_loop pt fs [] of Inl e \<Rightarrow> Inl e | Inr r \<Rightarrow> Inr ([p] @ r))"
        by (rule Cons.IH)
      show ?thesis
        unfolding 1 2 a b by (simp split: sum.splits)
    qed
  qed
qed

lemma loop_append:
  "structEncoder_loop pt (fs1 @ fs2) specs =
     (case structEncoder_loop pt fs1 specs of
        Inl e \<Rightarrow> Inl e
      | Inr specs' \<Rightarrow> structEncoder_loop pt fs2 specs')"
proof (induction fs1 arbitrary: specs)
  case Nil
  then show ?case by simp
next
  case (Cons f fs1)
  obtain tag fv where f: "f = (tag, fv)" by (cases f)
  show ?case by (simp add: f Cons.IH split: option.splits sum.splits)
qed

lemma loop_skip:
  assumes "pt tag = None"
  shows "structEncoder_loop pt (fs1 @ (tag, fv) # fs2) specs = structEncoder_loop pt (fs1 @ fs2) specs"
  using assms by (simp add: loop_append split: sum.splits)

lemma loop_all_skipped:
  "\<forall>f\<in>set fs. pt (fst f) = None \<Longrightarrow> structEncoder_loop pt fs specs = Inr specs"
  by (induction fs) auto

lemma loop_field:
  assumes "pt tag = Some s" "newValueEncoder pt (Some (Type_of fv)) fv = Inr v"
  shows "structEncoder_loop pt ((tag, fv) # fs) specs
       = structEncoder_loop pt fs (specs @ [padValue s (Type_of fv) v])"
  using assms by simp

lemma malformed_parseTag: "malformed tag \<Longrightarrow> parseTag tag = None"
  by (auto simp: malformed_def parseTag_def bounds_def Let_def split: list.splits)

lemma encode_single:
  assumes "valid_layout p"
  shows "encodeSpecs [p] =
     Inr (replicate (nat (startPos p - 1)) (CHR '' '')
          @ take (nat (fieldLength p)) (bytes p)
          @ replicate (nat (fieldLength p) - length (bytes p)) (CHR '' ''))"
proof -
  define lo where "lo = nat (startPos p - 1)"
  define W where "W = nat (fieldLength p)"
  have p: "1 \<le> startPos p" "startPos p \<le> endPos p" using assms by (simp_all add: valid_layout_def)
  have E: "nat (endPos p) = lo + W" using p by (simp add: lo_def W_def fieldLength_def)
  have ll: "lineLength [p] 0 = endPos p" using p by simp
  have "encodeSpecs [p] = Inr (copy (replicate (lo + W) (CHR '' '')) lo (lo + W) (bytes p))"
    using p by (simp add: encodeSpecs_def ll E lo_def [symmetric] del: lineLength.simps)
  moreover have "copy (replicate (lo + W) (CHR '' '')) lo (lo + W) (bytes p)
      = replicate lo (CHR '' '') @ take W (bytes p) @ replicate (W - length (bytes p)) (CHR '' '')"
    by (simp add: copy_def min_def)
  ultimately show ?thesis by (simp add: lo_def W_def)
qed

text \<open>
  C4. A field whose declaration the parser refuses is left out: the struct
  encodes (or fails) exactly as the struct without that field does, so the field
  can neither make the encoding fail nor lengthen the line; a struct whose
  fields are all refused encodes to the empty line. The parser modelled from the
  spec refuses every malformed declaration, the absent one included.
\<close>

theorem unparsed_field_skipped:
  "(malformed tag \<longrightarrow> parseTag tag = None)
   \<and> (pt tag = None \<longrightarrow>
        structEncoder pt (StructV i (fs1 @ (tag, fv) # fs2)) = structEncoder pt (StructV i (fs1 @ fs2)))
   \<and> ((\<forall>f\<in>set fs. pt (fst f) = None) \<longrightarrow> structEncoder pt (StructV i fs) = Inr [])"
proof -
  have "structEncoder pt (StructV i fs) = Inr []" if "\<forall>f\<in>set fs. pt (fst f) = None"
    using loop_all_skipped [OF that, of "[]"] by (simp add: encodeSpecs_def)
  then show ?thesis
    by (simp add: malformed_parseTag loop_skip)
qed

text \<open>
  The declarations \<^verbatim>\<open>fixed:"5"\<close>, \<^verbatim>\<open>fixed:"a,5"\<close> and \<^verbatim>\<open>fixed:"5,1"\<close> and the
  absent one; a struct with a valid field, a field without tag and one with the
  tag \<^verbatim>\<open>5\<close>; and a struct without any valid declaration, whose boolean field
  would not be encodable.
\<close>

theorem unparsed_field_skipped_witness:
  "malformed ''5'' \<and> malformed ''a,5'' \<and> malformed ''5,1'' \<and> malformed []
   \<and> parseTag ''5'' = None \<and> parseTag ''a,5'' = None \<and> parseTag ''5,1'' = None \<and> parseTag [] = None
   \<and> structEncoder parseTag (StructV \<lparr>TypeName = ''T'', MarshalText = None\<rparr>
        [(''1,5'', StringV \<lparr>TypeName = ''string'', MarshalText = None\<rparr> ''foo''),
         ([], StringV \<lparr>TypeName = ''string'', MarshalText = None\<rparr> ''foo''),
         (''5'', StringV \<lparr>TypeName = ''string'', MarshalText = None\<rparr> ''foo'')])
     = structEncoder parseTag (StructV \<lparr>TypeName = ''T'', MarshalText = None\<rparr>
        [(''1,5'', StringV \<lparr>TypeName = ''string'', MarshalText = None\<rparr> ''foo'')])
   \<and> structEncoder parseTag (StructV \<lparr>TypeName = ''T'', MarshalText = None\<rparr>
        [([], OtherV KBool \<lparr>TypeName = ''bool'', MarshalText = None\<rparr>),
         (''5,1'', StringV \<lparr>TypeName = ''string'', MarshalText = None\<rparr> ''foo'')]) = Inr []"
proof -
  have m: "malformed ''5''" "malformed ''a,5''" "malformed ''5,1''" "malformed []"
    by (simp_all add: malformed_def numeric_def is_digit_def decimal_def)
  note a = unparsed_field_skipped [of "''5''" parseTag]
  note b = unparsed_field_skipped [of "''a,5''" parseTag]
  note c = unparsed_field_skipped [of "''5,1''" parseTag]
  note d = unparsed_field_skipped [of "[]" parseTag]
  have p: "parseTag ''5'' = None" "parseTag ''a,5'' = None" "parseTag ''5,1'' = None" "parseTag [] = None"
    using m a b c d by simp_all
  have "structEncoder parseTag (StructV \<lparr>TypeName = ''T'', MarshalText = None\<rparr>
        [(''1,5'', StringV \<lparr>TypeName = ''string'', MarshalText = None\<rparr> ''foo''),
         ([], StringV \<lparr>TypeName = ''string'', MarshalText = None\<rparr> ''foo''),
         (''5'', StringV \<lparr>TypeName = ''string'', MarshalText = None\<rparr> ''foo'')])
     = structEncoder parseTag (StructV \<lparr>TypeName = ''T'', MarshalText = None\<rparr>
        [(''1,5'', StringV \<lparr>TypeName = ''string'', MarshalText = None\<rparr> ''foo''),
         ([], StringV \<lparr>TypeName = ''string'', MarshalText = None\<rparr> ''foo'')])"
    using p(1) unparsed_field_skipped [of "''5''" parseTag "\<lparr>TypeName = ''T'', MarshalText = None\<rparr>"
       "[(''1,5'', StringV \<lparr>TypeName = ''string'', MarshalText = None\<rparr> ''foo''),
         ([], StringV \<lparr>TypeName = ''string'', MarshalText = None\<rparr> ''foo'')]"
       "StringV \<lparr>TypeName = ''string'', MarshalText = None\<rparr> ''foo''" "[]"]
    by simp
  also have "\<dots> = structEncoder parseTag (StructV \<lparr>TypeName = ''T'', MarshalText = None\<rparr>
        [(''1,5'', StringV \<lparr>TypeName = ''string'', MarshalText = None\<rparr> ''foo'')])"
    using p(4) unparsed_field_skipped [of "[]" parseTag "\<lparr>TypeName = ''T'', MarshalText = None\<rparr>"
       "[(''1,5'', StringV \<lparr>TypeName = ''string'', MarshalText = None\<rparr> ''foo'')]"
       "StringV \<lparr>TypeName = ''string'', MarshalText = None\<rparr> ''foo''" "[]"]
    by simp
  finally have s1: "structEncoder parseTag (StructV \<lparr>TypeName = ''T'', MarshalText = None\<rparr>
        [(''1,5'', StringV \<lparr>TypeName = ''string'', MarshalText = None\<rparr> ''foo''),
         ([], StringV \<lparr>TypeName = ''string'', MarshalText = None\<rparr> ''foo''),
         (''5'', StringV \<lparr>TypeName = ''string'', MarshalText = None\<rparr> ''foo'')])
     = structEncoder parseTag (StructV \<lparr>TypeName = ''T'', MarshalText = None\<rparr>
        [(''1,5'', StringV \<lparr>TypeName = ''string'', MarshalText = None\<rparr> ''foo'')])" .
  have s2: "structEncoder parseTag (StructV \<lparr>TypeName = ''T'', MarshalText = None\<rparr>
        [([], OtherV KBool \<lparr>TypeName = ''bool'', MarshalText = None\<rparr>),
         (''5,1'', StringV \<lparr>TypeName = ''string'', MarshalText = None\<rparr> ''foo'')]) = Inr []"
    using p(3,4) unparsed_field_skipped [of _ parseTag "\<lparr>TypeName = ''T'', MarshalText = None\<rparr>" _ _ _
        "[([], OtherV KBool \<lparr>TypeName = ''bool'', MarshalText = None\<rparr>),
         (''5,1'', StringV \<lparr>TypeName = ''string'', MarshalText = None\<rparr> ''foo'')]"]
    by simp
  show ?thesis using m p s1 s2 by simp
qed

subsection \<open>The specs that the loop collects\<close>

lemma loop_accepted:
  "structEncoder_loop pt fs [] = Inr specs \<Longrightarrow>
     map (\<lambda>s. (startPos s, endPos s, leftpad s)) specs
   = map (\<lambda>s. (startPos s, endPos s, leftpad s)) (accepted pt fs)"
proof (induction fs arbitrary: specs)
  case Nil
  then show ?case by (simp add: accepted_def map_filter_simps)
next
  case (Cons f fs)
  obtain tag fv where f: "f = (tag, fv)" by (cases f)
  show ?case
  proof (cases "pt tag")
    case None
    then show ?thesis using Cons by (simp add: f accepted_def map_filter_simps)
  next
    case (Some s)
    then obtain v where v: "newValueEncoder pt (Some (Type_of fv)) fv = Inr v"
      and l: "structEncoder_loop pt fs [padValue s (Type_of fv) v] = Inr specs"
      using Cons.prems by (auto simp: f split: sum.splits)
    from l obtain r where r: "structEncoder_loop pt fs [] = Inr r"
      and specs: "specs = padValue s (Type_of fv) v # r"
      by (subst (asm) loop_prefix) (auto split: sum.splits)
    from Cons.IH [OF r] show ?thesis using Some
      by (simp add: specs f accepted_def map_filter_simps)
  qed
qed

lemma loop_same_layout:
  assumes "structEncoder_loop pt fs [] = Inr specs" "p \<in> set specs"
  shows "\<exists>a\<in>set (accepted pt fs). startPos a = startPos p \<and> endPos a = endPos p \<and> leftpad a = leftpad p"
proof -
  have "(startPos p, endPos p, leftpad p) \<in> set (map (\<lambda>s. (startPos s, endPos s, leftpad s)) specs)"
    using assms(2) by force
  then have "(startPos p, endPos p, leftpad p)
      \<in> set (map (\<lambda>s. (startPos s, endPos s, leftpad s)) (accepted pt fs))"
    using loop_accepted [OF assms(1)] by simp
  then show ?thesis by auto
qed

lemma loop_endPos:
  assumes "structEncoder_loop pt fs [] = Inr specs"
  shows "endPos ` set specs = endPos ` set (accepted pt fs)"
proof -
  have "map endPos specs = map (\<lambda>t. fst (snd t)) (map (\<lambda>s. (startPos s, endPos s, leftpad s)) specs)"
    by simp
  also have "\<dots> = map endPos (accepted pt fs)"
    unfolding loop_accepted [OF assms] by simp
  finally have "set (map endPos specs) = set (map endPos (accepted pt fs))" by simp
  then show ?thesis by simp
qed

lemma loop_valid:
  assumes "structEncoder_loop pt fs [] = Inr specs" "\<forall>s\<in>set (accepted pt fs). valid_layout s"
  shows "\<forall>p\<in>set specs. valid_layout p"
proof
  fix p assume "p \<in> set specs"
  from loop_same_layout [OF assms(1) this] obtain a where
    "a \<in> set (accepted pt fs)" "startPos a = startPos p" "endPos a = endPos p" by blast
  then show "valid_layout p" using assms(2) by (auto simp: valid_layout_def)
qed

lemma loop_total:
  assumes "\<forall>f\<in>set fs. pt (fst f) \<noteq> None \<longrightarrow>
             (\<exists>b. newValueEncoder pt (Some (Type_of (snd f))) (snd f) = Inr b)"
  shows "\<exists>specs. structEncoder_loop pt fs [] = Inr specs"
  using assms
proof (induction fs)
  case Nil
  then show ?case by simp
next
  case (Cons f fs)
  obtain tag fv where f: "f = (tag, fv)" by (cases f)
  from Cons obtain r where r: "structEncoder_loop pt fs [] = Inr r" by auto
  show ?case
  proof (cases "pt tag")
    case None
    then show ?thesis using r by (simp add: f)
  next
    case (Some s)
    then obtain b where b: "newValueEncoder pt (Some (Type_of fv)) fv = Inr b"
      using Cons.prems by (auto simp: f)
    have "structEncoder_loop pt (f # fs) [] = structEncoder_loop pt fs [padValue s (Type_of fv) b]"
      using Some b by (simp add: f)
    then show ?thesis using r by (subst (asm) loop_prefix) simp
  qed
qed

lemma loop_split:
  assumes "pt tag = Some s" "newValueEncoder pt (Some (Type_of fv)) fv = Inr b"
  shows "structEncoder_loop pt (fs1 @ (tag, fv) # fs2) [] =
     (case structEncoder_loop pt fs1 [] of
        Inl e \<Rightarrow> Inl e
      | Inr s1 \<Rightarrow>
          (case structEncoder_loop pt fs2 [] of
             Inl e \<Rightarrow> Inl e
           | Inr s2 \<Rightarrow> Inr (s1 @ padValue s (Type_of fv) b # s2)))"
proof (cases "structEncoder_loop pt fs1 []")
  case (Inl e)
  then show ?thesis by (simp add: loop_append)
next
  case (Inr s1)
  have "structEncoder_loop pt (fs1 @ (tag, fv) # fs2) []
      = structEncoder_loop pt fs2 (s1 @ [padValue s (Type_of fv) b])"
    using Inr assms by (simp add: loop_append)
  also have "\<dots> = (case structEncoder_loop pt fs2 [] of
             Inl e \<Rightarrow> Inl e
           | Inr s2 \<Rightarrow> Inr ((s1 @ [padValue s (Type_of fv) b]) @ s2))"
    by (rule loop_prefix)
  finally show ?thesis using Inr by (simp split: sum.splits)
qed

lemma accepted_append: "accepted pt (fs1 @ fs2) = accepted pt fs1 @ accepted pt fs2"
  by (induction fs1) (simp_all add: accepted_def map_filter_simps split: option.splits)

lemma accepted_Cons:
  "accepted pt ((tag, fv) # fs) = (case pt tag of None \<Rightarrow> accepted pt fs | Some s \<Rightarrow> s # accepted pt fs)"
  by (simp add: accepted_def map_filter_simps split: option.splits)

subsection \<open>Truncation\<close>

lemma copy_take: "copy dst lo hi (take (hi - lo) src) = copy dst lo hi src"
  by (simp add: copy_def min_def)

lemma copySpecs_append:
  "copySpecs (xs @ ys) data =
     (case copySpecs xs data of Inl e \<Rightarrow> Inl e | Inr d \<Rightarrow> copySpecs ys d)"
  by (induction xs arbitrary: data) simp_all

lemma copySpecs_truncate:
  assumes "startPos q = startPos p" "endPos q = endPos p"
    and "bytes q = take (nat (fieldLength p)) (bytes p)"
  shows "copySpecs (q # ys) d = copySpecs (p # ys) d"
proof (cases "startPos p - 1 < 0 \<or> endPos p < startPos p - 1 \<or> int (length d) < endPos p")
  case True
  then show ?thesis using assms by simp
next
  case False
  then have "nat (fieldLength p) = nat (endPos p) - nat (startPos p - 1)"
    unfolding fieldLength_def by arith
  then have "copy d (nat (startPos p - 1)) (nat (endPos p)) (bytes q)
      = copy d (nat (startPos p - 1)) (nat (endPos p)) (bytes p)"
    using assms(3) by (simp add: copy_take)
  then show ?thesis using False assms(1,2) by simp
qed

lemma lineLength_layout:
  "map endPos xs = map endPos ys \<Longrightarrow> lineLength xs ll = lineLength ys ll"
  by (simp add: lineLength_Max) (metis list.set_map)

lemma encodeSpecs_truncate:
  assumes "startPos q = startPos p" "endPos q = endPos p"
    and "bytes q = take (nat (fieldLength p)) (bytes p)"
  shows "encodeSpecs (xs @ q # ys) = encodeSpecs (xs @ p # ys)"
proof -
  have "lineLength (xs @ q # ys) 0 = lineLength (xs @ p # ys) 0"
    using assms(2) by (intro lineLength_layout) simp
  then show ?thesis
    using copySpecs_truncate [OF assms]
    by (simp add: encodeSpecs_def copySpecs_append del: copySpecs.simps split: sum.splits)
qed

lemma writes_range:
  "writes s j \<Longrightarrow> startPos s \<le> int j + 1 \<and> int j + 1 \<le> endPos s"
  by (auto simp: writes_def fieldLength_def)

subsection \<open>The encoded line\<close>

lemma struct_line:
  assumes "structEncoder_loop pt fs [] = Inr specs"
    and "\<forall>s\<in>set (accepted pt fs). valid_layout s"
  shows "\<exists>data. structEncoder pt (StructV i fs) = Inr data
           \<and> int (length data) = Max (insert 0 (endPos ` set (accepted pt fs)))
           \<and> (\<forall>j<length data. data ! j = (case byte_at specs j of None \<Rightarrow> CHR '' '' | Some c \<Rightarrow> c))"
proof -
  have "\<forall>p\<in>set specs. valid_layout p" using assms by (rule loop_valid)
  from encodeSpecs_ok [OF this] show ?thesis
    using assms(1) by (simp add: loop_endPos [OF assms(1)])
qed

lemma struct_byte:
  assumes tag: "pt tag = Some s"
    and enc: "newValueEncoder pt (Some (Type_of fv)) fv = Inr b"
    and valid: "\<forall>a\<in>set (accepted pt (fs1 @ (tag, fv) # fs2)). valid_layout a"
    and data: "structEncoder pt (StructV i (fs1 @ (tag, fv) # fs2)) = Inr data"
    and before: "structEncoder_loop pt fs1 [] = Inr before"
    and after: "structEncoder_loop pt fs2 [] = Inr after"
    and j: "j < length data"
  shows "data ! j =
     (case byte_at after j of
        Some c \<Rightarrow> c
      | None \<Rightarrow>
          if writes (padValue s (Type_of fv) b) j
          then bytes (padValue s (Type_of fv) b) ! (j - nat (startPos s - 1))
          else (case byte_at before j of Some c \<Rightarrow> c | None \<Rightarrow> CHR '' ''))"
proof -
  define p where "p = padValue s (Type_of fv) b"
  have specs: "structEncoder_loop pt (fs1 @ (tag, fv) # fs2) [] = Inr (before @ p # after)"
    unfolding loop_split [OF tag enc] p_def using before after by simp
  from struct_line [OF specs valid, of i] data j
  have "data ! j = (case byte_at (before @ p # after) j of None \<Rightarrow> CHR '' '' | Some c \<Rightarrow> c)"
    by auto
  then show ?thesis
    unfolding p_def [symmetric]
    by (simp add: byte_at_append byte_at_Cons p_def split: option.splits)
qed

lemma range_in_line:
  assumes tag: "pt tag = Some s"
    and valid: "\<forall>a\<in>set (accepted pt (fs1 @ (tag, fv) # fs2)). valid_layout a"
    and data: "structEncoder pt (StructV i (fs1 @ (tag, fv) # fs2)) = Inr data"
    and range: "int j + 1 \<le> endPos s"
  shows "j < length data"
proof -
  obtain specs where specs: "structEncoder_loop pt (fs1 @ (tag, fv) # fs2) [] = Inr specs"
    using data by (auto split: sum.splits)
  from struct_line [OF specs valid, of i] data
  have len: "int (length data) = Max (insert 0 (endPos ` set (accepted pt (fs1 @ (tag, fv) # fs2))))"
    by auto
  have "s \<in> set (accepted pt (fs1 @ (tag, fv) # fs2))"
    using tag by (simp add: accepted_append accepted_Cons)
  then have "endPos s \<le> Max (insert 0 (endPos ` set (accepted pt (fs1 @ (tag, fv) # fs2))))"
    by simp
  then show ?thesis using range len by linarith
qed

text \<open>
  C1. When the accepted declarations are layouts (\<open>1 \<le> startPos \<le> endPos\<close>) and
  every accepted field's encoder succeeds, \<^verbatim>\<open>structEncoder\<close> returns a line, never
  an error. Its length is the greatest \<open>endPos\<close> of an accepted field, 0 without
  one; an index that no accepted field's range covers holds a space. Where an
  accepted field has a byte for an index and no field declared after it has
  one, the line holds the field's byte; when the field's bytes \<open>b\<close> are longer
  than its width, this is the byte of \<open>b\<close> at the offset in the field, for
  every index of the field's range, and the line is the one obtained from a
  field value that encodes to just the leading width bytes of \<open>b\<close>.
\<close>

theorem line_buffer:
  assumes "\<forall>s\<in>set (accepted pt fs). valid_layout s"
    and "\<forall>f\<in>set fs. pt (fst f) \<noteq> None \<longrightarrow>
           (\<exists>b. newValueEncoder pt (Some (Type_of (snd f))) (snd f) = Inr b)"
  shows "\<exists>data. structEncoder pt (StructV i fs) = Inr data
       \<and> int (length data) = Max (insert 0 (endPos ` set (accepted pt fs)))
       \<and> (\<forall>j<length data.
            (\<forall>s\<in>set (accepted pt fs). \<not> (startPos s \<le> int j + 1 \<and> int j + 1 \<le> endPos s))
            \<longrightarrow> data ! j = CHR '' '')
       \<and> (\<forall>fs1 tag fv fs2 s b fv'.
            fs = fs1 @ (tag, fv) # fs2 \<and> pt tag = Some s
            \<and> newValueEncoder pt (Some (Type_of fv)) fv = Inr b
            \<and> fieldLength s < int (length b)
            \<and> newValueEncoder pt (Some (Type_of fv')) fv' = Inr (take (nat (fieldLength s)) b)
            \<longrightarrow> structEncoder pt (StructV i (fs1 @ (tag, fv') # fs2)) = Inr data)
       \<and> (\<forall>fs1 tag fv fs2 s b later j.
            fs = fs1 @ (tag, fv) # fs2 \<and> pt tag = Some s
            \<and> newValueEncoder pt (Some (Type_of fv)) fv = Inr b
            \<and> structEncoder_loop pt fs2 [] = Inr later
            \<and> (\<forall>s'\<in>set later. \<not> writes s' j)
            \<longrightarrow> (writes (padValue s (Type_of fv) b) j
                   \<longrightarrow> j < length data
                     \<and> data ! j = bytes (padValue s (Type_of fv) b) ! (j - nat (startPos s - 1)))
              \<and> (fieldLength s < int (length b)
                   \<and> startPos s \<le> int j + 1 \<and> int j + 1 \<le> endPos s
                   \<longrightarrow> j < length data \<and> data ! j = b ! (j - nat (startPos s - 1))))"
proof -
  from loop_total [OF assms(2)] obtain specs where specs: "structEncoder_loop pt fs [] = Inr specs"
    by blast
  from struct_line [OF specs assms(1)] obtain data where
    data: "structEncoder pt (StructV i fs) = Inr data"
    and len: "int (length data) = Max (insert 0 (endPos ` set (accepted pt fs)))"
    and nth: "\<forall>j<length data. data ! j = (case byte_at specs j of None \<Rightarrow> CHR '' '' | Some c \<Rightarrow> c)"
    by blast
  have spaces: "data ! j = CHR '' ''"
    if j: "j < length data"
      and free: "\<forall>s\<in>set (accepted pt fs). \<not> (startPos s \<le> int j + 1 \<and> int j + 1 \<le> endPos s)"
    for j
  proof -
    have "\<not> writes p j" if p: "p \<in> set specs" for p
    proof
      assume "writes p j"
      then have "startPos p \<le> int j + 1 \<and> int j + 1 \<le> endPos p" by (rule writes_range)
      moreover from loop_same_layout [OF specs p] obtain a where
        "a \<in> set (accepted pt fs)" "startPos a = startPos p" "endPos a = endPos p" by blast
      ultimately show False using free by auto
    qed
    then have "byte_at specs j = None" by (simp add: byte_at_None)
    then show ?thesis using nth j by simp
  qed
  have trunc: "structEncoder pt (StructV i (fs1 @ (tag, fv') # fs2)) = Inr data"
    if fs: "fs = fs1 @ (tag, fv) # fs2" and tag: "pt tag = Some s"
      and b: "newValueEncoder pt (Some (Type_of fv)) fv = Inr b"
      and long: "fieldLength s < int (length b)"
      and b': "newValueEncoder pt (Some (Type_of fv')) fv' = Inr (take (nat (fieldLength s)) b)"
    for fs1 tag fv fs2 s b fv'
  proof -
    define p where "p = padValue s (Type_of fv) b"
    define q where "q = padValue s (Type_of fv') (take (nat (fieldLength s)) b)"
    from specs obtain s1 s2 where s1: "structEncoder_loop pt fs1 [] = Inr s1"
      and s2: "structEncoder_loop pt fs2 [] = Inr s2" and sp: "specs = s1 @ p # s2"
      unfolding fs loop_split [OF tag b] p_def by (auto split: sum.splits)
    have l': "structEncoder_loop pt (fs1 @ (tag, fv') # fs2) [] = Inr (s1 @ q # s2)"
      unfolding loop_split [OF tag b'] q_def using s1 s2 by simp
    have bp: "bytes p = b" using long by (simp add: p_def padValue_bytes)
    have "\<not> int (length (take (nat (fieldLength s)) b)) < fieldLength s" using long by simp
    then have bq: "bytes q = take (nat (fieldLength s)) b" by (simp add: q_def padValue_bytes)
    have "encodeSpecs (s1 @ q # s2) = encodeSpecs (s1 @ p # s2)"
      by (rule encodeSpecs_truncate) (simp_all add: bp bq, simp_all add: p_def q_def)
    then show ?thesis using l' data specs sp by simp
  qed
  have place: "(writes (padValue s (Type_of fv) b) j
                   \<longrightarrow> j < length data
                     \<and> data ! j = bytes (padValue s (Type_of fv) b) ! (j - nat (startPos s - 1)))
              \<and> (fieldLength s < int (length b)
                   \<and> startPos s \<le> int j + 1 \<and> int j + 1 \<le> endPos s
                   \<longrightarrow> j < length data \<and> data ! j = b ! (j - nat (startPos s - 1)))"
    if fs: "fs = fs1 @ (tag, fv) # fs2" and tag: "pt tag = Some s"
      and b: "newValueEncoder pt (Some (Type_of fv)) fv = Inr b"
      and later: "structEncoder_loop pt fs2 [] = Inr later"
      and free: "\<forall>s'\<in>set later. \<not> writes s' j"
    for fs1 tag fv fs2 s b later j
  proof -
    define p where "p = padValue s (Type_of fv) b"
    have valid: "\<forall>a\<in>set (accepted pt (fs1 @ (tag, fv) # fs2)). valid_layout a"
      using assms(1) by (simp add: fs)
    have d: "structEncoder pt (StructV i (fs1 @ (tag, fv) # fs2)) = Inr data"
      using data by (simp add: fs)
    obtain before where before: "structEncoder_loop pt fs1 [] = Inr before"
      using specs unfolding fs loop_split [OF tag b] by (auto split: sum.splits)
    have none: "byte_at later j = None" using free by (simp add: byte_at_None)
    have "s \<in> set (accepted pt (fs1 @ (tag, fv) # fs2))"
      using tag by (simp add: accepted_append accepted_Cons)
    then have vs: "valid_layout s" using valid by blast
    have at: "data ! j = bytes p ! (j - nat (startPos s - 1))" if "writes p j" "j < length data"
      using struct_byte [OF tag b valid d before later that(2)] that(1) none by (simp add: p_def)
    have lt: "j < length data" if "int j + 1 \<le> endPos s"
      using tag valid d that by (rule range_in_line)
    have w_range: "int j + 1 \<le> endPos s" if "writes p j"
      using writes_range [OF that] by (simp add: p_def)
    have one: "j < length data \<and> data ! j = bytes p ! (j - nat (startPos s - 1))" if "writes p j"
      using at [OF that] lt [OF w_range [OF that]] by simp
    have two: "j < length data \<and> data ! j = b ! (j - nat (startPos s - 1))"
      if long: "fieldLength s < int (length b)"
        and range: "startPos s \<le> int j + 1" "int j + 1 \<le> endPos s"
    proof -
      have bp: "bytes p = b" using long by (simp add: p_def padValue_bytes)
      have "writes p j"
        unfolding writes_def bp using long range vs
        by (simp add: p_def fieldLength_def valid_layout_def)
      from one [OF this] show ?thesis by (simp add: bp)
    qed
    show ?thesis using one two unfolding p_def by blast
  qed
  show ?thesis
    apply (rule exI [of _ data])
    apply (intro conjI)
        apply (rule data)
       apply (rule len)
      using spaces apply blast
     using trunc apply blast
    using place apply blast
    done
qed


text \<open>
  A text of nine bytes in columns 1 to 5 and a 7 in columns 8 to 9: the line has
  nine bytes, the first five bytes of the text at their offsets, and spaces in
  columns 6 and 7.
\<close>

theorem line_buffer_witness:
  "structEncoder parseTag (StructV \<lparr>TypeName = ''T'', MarshalText = None\<rparr>
        [(''1,5'', StringV \<lparr>TypeName = ''string'', MarshalText = None\<rparr> ''123456789''),
         (''8,9'', IntV KInt \<lparr>TypeName = ''int'', MarshalText = None\<rparr> 7)]) = Inr ''12345  7 ''
   \<and> structEncoder parseTag (StructV \<lparr>TypeName = ''T'', MarshalText = None\<rparr>
        [(''1,5'', StringV \<lparr>TypeName = ''string'', MarshalText = None\<rparr> ''12345''),
         (''8,9'', IntV KInt \<lparr>TypeName = ''int'', MarshalText = None\<rparr> 7)]) = Inr ''12345  7 ''
   \<and> Max (insert 0 (endPos ` set (accepted parseTag
        [(''1,5'', StringV \<lparr>TypeName = ''string'', MarshalText = None\<rparr> ''123456789''),
         (''8,9'', IntV KInt \<lparr>TypeName = ''int'', MarshalText = None\<rparr> 7)]))) = 9
   \<and> ''12345  7 '' ! 4 = ''123456789'' ! (4 - nat (1 - 1))"
proof -
  define fs where "fs = [(''1,5'', StringV \<lparr>TypeName = ''string'', MarshalText = None\<rparr> ''123456789''),
         (''8,9'', IntV KInt \<lparr>TypeName = ''int'', MarshalText = None\<rparr> 7)]"
  define s1 where "s1 = \<lparr>startPos = 1, endPos = 5, leftpad = False, bytes = []\<rparr>"
  define s2 where "s2 = \<lparr>startPos = 8, endPos = 9, leftpad = False, bytes = []\<rparr>"
  have t1: "parseTag ''1,5'' = Some s1"
    by (simp add: s1_def parseTag_def bounds_def numeric_def is_digit_def decimal_def)
  have t2: "parseTag ''8,9'' = Some s2"
    by (simp add: s2_def parseTag_def bounds_def numeric_def is_digit_def decimal_def)
  have acc: "accepted parseTag fs = [s1, s2]"
    by (simp add: fs_def accepted_Cons t1 t2 accepted_def map_filter_simps)
  have v1: "newValueEncoder parseTag (Some (Type_of (StringV \<lparr>TypeName = ''string'', MarshalText = None\<rparr> s)))
      (StringV \<lparr>TypeName = ''string'', MarshalText = None\<rparr> s) = Inr s" for s
    by (simp add: newValueEncoder.simps implements_def)
  have v2: "newValueEncoder parseTag (Some (Type_of (IntV KInt \<lparr>TypeName = ''int'', MarshalText = None\<rparr> 7)))
      (IntV KInt \<lparr>TypeName = ''int'', MarshalText = None\<rparr> 7) = Inr ''7''"
    by (simp add: newValueEncoder.simps implements_def Itoa_def digits.simps digit_def)
  have h1: "\<forall>s\<in>set (accepted parseTag fs). valid_layout s"
    by (simp add: acc valid_layout_def s1_def s2_def)
  have h2: "\<forall>f\<in>set fs. parseTag (fst f) \<noteq> None \<longrightarrow>
           (\<exists>b. newValueEncoder parseTag (Some (Type_of (snd f))) (snd f) = Inr b)"
    using v1 v2 by (simp add: fs_def)
  have short: "structEncoder parseTag (StructV \<lparr>TypeName = ''T'', MarshalText = None\<rparr>
        [(''1,5'', StringV \<lparr>TypeName = ''string'', MarshalText = None\<rparr> ''12345''),
         (''8,9'', IntV KInt \<lparr>TypeName = ''int'', MarshalText = None\<rparr> 7)]) = Inr ''12345  7 ''"
    using v1 [of "''12345''"] v2
    by (simp add: t1 t2 s1_def s2_def padValue_def fieldLength_def encodeSpecs_def copy_def
          eval_nat_numeral)
  from line_buffer [OF h1 h2, of "\<lparr>TypeName = ''T'', MarshalText = None\<rparr>"]
  obtain data where all:
    "structEncoder parseTag (StructV \<lparr>TypeName = ''T'', MarshalText = None\<rparr> fs) = Inr data
       \<and> int (length data) = Max (insert 0 (endPos ` set (accepted parseTag fs)))
       \<and> (\<forall>j<length data.
            (\<forall>s\<in>set (accepted parseTag fs). \<not> (startPos s \<le> int j + 1 \<and> int j + 1 \<le> endPos s))
            \<longrightarrow> data ! j = CHR '' '')
       \<and> (\<forall>fs1 tag fv fs2 s b fv'.
            fs = fs1 @ (tag, fv) # fs2 \<and> parseTag tag = Some s
            \<and> newValueEncoder parseTag (Some (Type_of fv)) fv = Inr b
            \<and> fieldLength s < int (length b)
            \<and> newValueEncoder parseTag (Some (Type_of fv')) fv' = Inr (take (nat (fieldLength s)) b)
            \<longrightarrow> structEncoder parseTag (StructV \<lparr>TypeName = ''T'', MarshalText = None\<rparr>
                   (fs1 @ (tag, fv') # fs2)) = Inr data)
       \<and> (\<forall>fs1 tag fv fs2 s b later j.
            fs = fs1 @ (tag, fv) # fs2 \<and> parseTag tag = Some s
            \<and> newValueEncoder parseTag (Some (Type_of fv)) fv = Inr b
            \<and> structEncoder_loop parseTag fs2 [] = Inr later
            \<and> (\<forall>s'\<in>set later. \<not> writes s' j)
            \<longrightarrow> (writes (padValue s (Type_of fv) b) j
                   \<longrightarrow> j < length data
                     \<and> data ! j = bytes (padValue s (Type_of fv) b) ! (j - nat (startPos s - 1)))
              \<and> (fieldLength s < int (length b)
                   \<and> startPos s \<le> int j + 1 \<and> int j + 1 \<le> endPos s
                   \<longrightarrow> j < length data \<and> data ! j = b ! (j - nat (startPos s - 1))))"
    ..
  note d = all [THEN conjunct1]
  note tr0 = all [THEN conjunct2, THEN conjunct2, THEN conjunct2, THEN conjunct1]
  note pl0 = all [THEN conjunct2, THEN conjunct2, THEN conjunct2, THEN conjunct2]
  have tr: "structEncoder parseTag (StructV \<lparr>TypeName = ''T'', MarshalText = None\<rparr>
      (fs1 @ (tag, fv') # fs2)) = Inr data"
    if "fs = fs1 @ (tag, fv) # fs2" "parseTag tag = Some s"
      "newValueEncoder parseTag (Some (Type_of fv)) fv = Inr b"
      "fieldLength s < int (length b)"
      "newValueEncoder parseTag (Some (Type_of fv')) fv' = Inr (take (nat (fieldLength s)) b)"
    for fs1 tag fv fs2 s b fv'
    using tr0 [rule_format, of fs1 tag fv fs2 s b fv'] that by simp
  have pl: "data ! j = b ! (j - nat (startPos s - 1))"
    if "fs = fs1 @ (tag, fv) # fs2" "parseTag tag = Some s"
      "newValueEncoder parseTag (Some (Type_of fv)) fv = Inr b"
      "structEncoder_loop parseTag fs2 [] = Inr later"
      "\<forall>s'\<in>set later. \<not> writes s' j"
      "fieldLength s < int (length b)"
      "startPos s \<le> int j + 1" "int j + 1 \<le> endPos s"
    for fs1 tag fv fs2 s b later j
    using pl0 [rule_format, of fs1 tag fv fs2 s b later j] that by simp
  have lt: "fieldLength s1 < int (length ''123456789'')"
    by (simp add: fieldLength_def s1_def)
  have tk: "take (nat (fieldLength s1)) ''123456789'' = ''12345''"
    by (simp add: fieldLength_def s1_def eval_nat_numeral)
  have v1t: "newValueEncoder parseTag
      (Some (Type_of (StringV \<lparr>TypeName = ''string'', MarshalText = None\<rparr> ''12345'')))
      (StringV \<lparr>TypeName = ''string'', MarshalText = None\<rparr> ''12345'')
    = Inr (take (nat (fieldLength s1)) ''123456789'')"
    unfolding tk by (rule v1)
  have split: "fs = [] @ (''1,5'', StringV \<lparr>TypeName = ''string'', MarshalText = None\<rparr> ''123456789'')
      # [(''8,9'', IntV KInt \<lparr>TypeName = ''int'', MarshalText = None\<rparr> 7)]"
    by (simp add: fs_def)
  have "structEncoder parseTag (StructV \<lparr>TypeName = ''T'', MarshalText = None\<rparr>
        ([] @ (''1,5'', StringV \<lparr>TypeName = ''string'', MarshalText = None\<rparr> ''12345'') #
         [(''8,9'', IntV KInt \<lparr>TypeName = ''int'', MarshalText = None\<rparr> 7)])) = Inr data"
    by (rule tr [OF split t1 v1 lt v1t])
  then have data: "data = ''12345  7 ''" using short by simp
  have later: "structEncoder_loop parseTag
      [(''8,9'', IntV KInt \<lparr>TypeName = ''int'', MarshalText = None\<rparr> 7)] []
      = Inr [padValue s2 (Type_of (IntV KInt \<lparr>TypeName = ''int'', MarshalText = None\<rparr> 7)) ''7'']"
    using v2 by (simp add: t2)
  have free: "\<forall>s'\<in>set [padValue s2 (Type_of (IntV KInt \<lparr>TypeName = ''int'', MarshalText = None\<rparr> 7)) ''7''].
      \<not> writes s' 4"
    by (simp add: writes_def s2_def)
  have "data ! 4 = ''123456789'' ! (4 - nat (startPos s1 - 1))"
    by (rule pl [OF split t1 v1 later free lt]) (simp_all add: s1_def)
  then have at: "''12345  7 '' ! 4 = ''123456789'' ! (4 - nat (1 - 1))"
    by (simp add: data s1_def)
  show ?thesis using d short at unfolding fs_def [symmetric] by (simp add: acc data s1_def s2_def)
qed


subsection \<open>Left-padding in the line\<close>

text \<open>
  C2. For a field with an accepted declaration whose encoder produced \<open>v\<close>, the
  loop of \<^verbatim>\<open>structEncoder\<close> records, when \<open>v\<close> is shorter than the field and
  leftpad is set, \<open>v\<close> left-padded to the field's width with the fill character
  of the field's innermost type (\<open>0\<close> for a signed integer or a float, a space
  otherwise), and \<open>v\<close> itself in every other case. A struct of this one field
  encodes to spaces up to the field's start, then the padded bytes, or \<open>v\<close>
  followed by spaces up to the field's end when leftpad is not set. In the line
  of any struct, at an index of the field's range for which no field declared
  after it has a byte: with leftpad and a short \<open>v\<close> the line holds the byte
  of the padded \<open>v\<close> at the offset in the field; otherwise it holds the byte
  of \<open>v\<close> at that offset, and beyond the end of \<open>v\<close> a space, unless a field
  declared before has a byte there.
\<close>

theorem leftpad_policy:
  assumes "pt tag = Some spec"
    and "newValueEncoder pt (Some (Type_of fv)) fv = Inr v"
    and "valid_layout spec"
  shows "structEncoder_loop pt ((tag, fv) # fs) specs =
           structEncoder_loop pt fs
             (specs @ [spec\<lparr>bytes :=
                (if int (length v) < fieldLength spec \<and> leftpad spec
                 then replicate (nat (fieldLength spec) - length v) (fill_char (Type_of fv)) @ v
                 else v)\<rparr>])
       \<and> structEncoder pt (StructV i [(tag, fv)]) =
           Inr (replicate (nat (startPos spec - 1)) (CHR '' '')
                @ (if int (length v) < fieldLength spec
                   then (if leftpad spec
                         then replicate (nat (fieldLength spec) - length v) (fill_char (Type_of fv)) @ v
                         else v @ replicate (nat (fieldLength spec) - length v) (CHR '' ''))
                   else take (nat (fieldLength spec)) v))
       \<and> ((\<forall>a\<in>set (accepted pt (fs1 @ (tag, fv) # fs2)). valid_layout a)
            \<and> structEncoder pt (StructV i (fs1 @ (tag, fv) # fs2)) = Inr data
            \<and> structEncoder_loop pt fs1 [] = Inr before
            \<and> structEncoder_loop pt fs2 [] = Inr after
            \<and> (\<forall>s'\<in>set after. \<not> writes s' j)
            \<and> startPos spec \<le> int j + 1 \<and> int j + 1 \<le> endPos spec
          \<longrightarrow> j < length data
            \<and> (int (length v) < fieldLength spec \<and> leftpad spec
                 \<longrightarrow> data ! j =
                       (replicate (nat (fieldLength spec) - length v) (fill_char (Type_of fv)) @ v)
                         ! (j - nat (startPos spec - 1)))
            \<and> (\<not> (int (length v) < fieldLength spec \<and> leftpad spec)
                 \<and> j - nat (startPos spec - 1) < length v
                 \<longrightarrow> data ! j = v ! (j - nat (startPos spec - 1)))
            \<and> (\<not> (int (length v) < fieldLength spec \<and> leftpad spec)
                 \<and> length v \<le> j - nat (startPos spec - 1)
                 \<and> (\<forall>s'\<in>set before. \<not> writes s' j)
                 \<longrightarrow> data ! j = CHR '' ''))"
proof -
  define p where "p = padValue spec (Type_of fv) v"
  have loop: "structEncoder_loop pt ((tag, fv) # fs') specs' = structEncoder_loop pt fs' (specs' @ [p])"
    for fs' specs'
    unfolding p_def using assms(1,2) by (rule loop_field)
  have b: "bytes p = (if int (length v) < fieldLength spec \<and> leftpad spec
                 then replicate (nat (fieldLength spec) - length v) (fill_char (Type_of fv)) @ v
                 else v)"
    by (simp add: p_def padValue_bytes)
  have first: "structEncoder_loop pt ((tag, fv) # fs) specs =
           structEncoder_loop pt fs
             (specs @ [spec\<lparr>bytes :=
                (if int (length v) < fieldLength spec \<and> leftpad spec
                 then replicate (nat (fieldLength spec) - length v) (fill_char (Type_of fv)) @ v
                 else v)\<rparr>])"
    using loop [of fs specs] by (simp add: p_def padValue_eq)
  have "valid_layout p" using assms(3) by (simp add: p_def)
  from encode_single [OF this]
  have "structEncoder pt (StructV i [(tag, fv)]) =
     Inr (replicate (nat (startPos spec - 1)) (CHR '' '')
          @ take (nat (fieldLength spec)) (bytes p)
          @ replicate (nat (fieldLength spec) - length (bytes p)) (CHR '' ''))"
    using loop [of "[]" "[]"] by (simp add: p_def)
  moreover have "take (nat (fieldLength spec)) (bytes p)
          @ replicate (nat (fieldLength spec) - length (bytes p)) (CHR '' '')
      = (if int (length v) < fieldLength spec
                   then (if leftpad spec
                         then replicate (nat (fieldLength spec) - length v) (fill_char (Type_of fv)) @ v
                         else v @ replicate (nat (fieldLength spec) - length v) (CHR '' ''))
                   else take (nat (fieldLength spec)) v)"
    unfolding b by auto
  ultimately have second: "structEncoder pt (StructV i [(tag, fv)]) =
           Inr (replicate (nat (startPos spec - 1)) (CHR '' '')
                @ (if int (length v) < fieldLength spec
                   then (if leftpad spec
                         then replicate (nat (fieldLength spec) - length v) (fill_char (Type_of fv)) @ v
                         else v @ replicate (nat (fieldLength spec) - length v) (CHR '' ''))
                   else take (nat (fieldLength spec)) v))"
    by simp
  have third: "j < length data
            \<and> (int (length v) < fieldLength spec \<and> leftpad spec
                 \<longrightarrow> data ! j =
                       (replicate (nat (fieldLength spec) - length v) (fill_char (Type_of fv)) @ v)
                         ! (j - nat (startPos spec - 1)))
            \<and> (\<not> (int (length v) < fieldLength spec \<and> leftpad spec)
                 \<and> j - nat (startPos spec - 1) < length v
                 \<longrightarrow> data ! j = v ! (j - nat (startPos spec - 1)))
            \<and> (\<not> (int (length v) < fieldLength spec \<and> leftpad spec)
                 \<and> length v \<le> j - nat (startPos spec - 1)
                 \<and> (\<forall>s'\<in>set before. \<not> writes s' j)
                 \<longrightarrow> data ! j = CHR '' '')"
    if valid: "\<forall>a\<in>set (accepted pt (fs1 @ (tag, fv) # fs2)). valid_layout a"
      and data: "structEncoder pt (StructV i (fs1 @ (tag, fv) # fs2)) = Inr data"
      and before: "structEncoder_loop pt fs1 [] = Inr before"
      and after: "structEncoder_loop pt fs2 [] = Inr after"
      and free: "\<forall>s'\<in>set after. \<not> writes s' j"
      and range: "startPos spec \<le> int j + 1" "int j + 1 \<le> endPos spec"
  proof -
    define k where "k = j - nat (startPos spec - 1)"
    have j: "j < length data" using assms(1) valid data range(2) by (rule range_in_line)
    have none: "byte_at after j = None" using free by (simp add: byte_at_None)
    have nth: "data ! j = (if writes p j then bytes p ! k
        else (case byte_at before j of Some c \<Rightarrow> c | None \<Rightarrow> CHR '' ''))"
      using struct_byte [OF assms(1,2) valid data before after j] none
      by (simp add: p_def k_def)
    have sp: "1 \<le> startPos spec" "startPos spec \<le> endPos spec"
      using assms(3) by (simp_all add: valid_layout_def)
    have kW: "int k < fieldLength spec" "int k = int j - (startPos spec - 1)"
      using range sp by (simp_all add: k_def fieldLength_def)
    have w: "writes p j \<longleftrightarrow> k < length (bytes p)"
      using kW range sp by (auto simp: writes_def p_def)
    have pad: "data ! j =
        (replicate (nat (fieldLength spec) - length v) (fill_char (Type_of fv)) @ v) ! k"
      if c: "int (length v) < fieldLength spec \<and> leftpad spec"
    proof -
      have bp: "bytes p = replicate (nat (fieldLength spec) - length v) (fill_char (Type_of fv)) @ v"
        using c by (simp add: b)
      have "length v \<le> nat (fieldLength spec)" using c by linarith
      then have "length (bytes p) = nat (fieldLength spec)" by (simp add: bp)
      then have "writes p j" using w kW by simp
      then show ?thesis using nth by (simp add: bp)
    qed
    have val: "data ! j = v ! k"
      if c: "\<not> (int (length v) < fieldLength spec \<and> leftpad spec)" and "k < length v"
    proof -
      have "bytes p = v" unfolding b using c by (rule if_not_P)
      then show ?thesis using nth w that(2) by simp
    qed
    have fill: "data ! j = CHR '' ''"
      if c: "\<not> (int (length v) < fieldLength spec \<and> leftpad spec)" and "length v \<le> k"
        and "\<forall>s'\<in>set before. \<not> writes s' j"
    proof -
      have "bytes p = v" unfolding b using c by (rule if_not_P)
      then have "\<not> writes p j" using w that(2) by simp
      moreover have "byte_at before j = None" using that(3) by (simp add: byte_at_None)
      ultimately show ?thesis using nth by simp
    qed
    show ?thesis using j pad val fill unfolding k_def by blast
  qed
  show ?thesis
    apply (intro conjI)
      apply (rule first)
     apply (rule second)
    apply (rule impI)
    apply (elim conjE)
    apply (rule third)
          apply assumption+
    done
qed

text \<open>
  The integer 2 and the text \<^verbatim>\<open>two\<close> in a leftpad field of width 5, and the
  text in a field without leftpad, each alone in a struct; and a struct of the
  integer 2 in columns 1 to 5 with leftpad and the text in columns 6 to 10
  without: column 4 holds a fill character, column 9 a space.
\<close>

theorem leftpad_policy_witness:
  "structEncoder parseTag
     (StructV \<lparr>TypeName = ''T'', MarshalText = None\<rparr>
        [(''1,5,leftpad'', IntV KInt \<lparr>TypeName = ''int'', MarshalText = None\<rparr> 2)]) = Inr ''00002''
   \<and> structEncoder parseTag
     (StructV \<lparr>TypeName = ''T'', MarshalText = None\<rparr>
        [(''1,5,leftpad'', StringV \<lparr>TypeName = ''string'', MarshalText = None\<rparr> ''two'')]) = Inr ''  two''
   \<and> structEncoder parseTag
     (StructV \<lparr>TypeName = ''T'', MarshalText = None\<rparr>
        [(''1,5'', StringV \<lparr>TypeName = ''string'', MarshalText = None\<rparr> ''two'')]) = Inr ''two  ''
   \<and> structEncoder parseTag
     (StructV \<lparr>TypeName = ''T'', MarshalText = None\<rparr>
        ([] @ (''1,5,leftpad'', IntV KInt \<lparr>TypeName = ''int'', MarshalText = None\<rparr> 2)
           # [(''6,10'', StringV \<lparr>TypeName = ''string'', MarshalText = None\<rparr> ''two'')]))
       = Inr ''00002two  ''
   \<and> ''00002two  '' ! 3 = CHR ''0''
   \<and> ''00002two  '' ! 8 = CHR '' ''"
proof -
  define T where "T = \<lparr>TypeName = ''T'', MarshalText = None\<rparr>"
  define I where "I = IntV KInt \<lparr>TypeName = ''int'', MarshalText = None\<rparr> 2"
  define S where "S = StringV \<lparr>TypeName = ''string'', MarshalText = None\<rparr> ''two''"
  define s1 where "s1 = \<lparr>startPos = 1, endPos = 5, leftpad = True, bytes = []\<rparr>"
  define s2 where "s2 = \<lparr>startPos = 6, endPos = 10, leftpad = False, bytes = []\<rparr>"
  have t1: "parseTag ''1,5,leftpad'' = Some s1"
    by (simp add: s1_def parseTag_def bounds_def numeric_def is_digit_def decimal_def)
  have t2: "parseTag ''1,5'' = Some \<lparr>startPos = 1, endPos = 5, leftpad = False, bytes = []\<rparr>"
    by (simp add: parseTag_def bounds_def numeric_def is_digit_def decimal_def)
  have t3: "parseTag ''6,10'' = Some s2"
    by (simp add: s2_def parseTag_def bounds_def numeric_def is_digit_def decimal_def)
  have v1: "newValueEncoder parseTag (Some (Type_of I)) I = Inr ''2''"
    by (simp add: I_def newValueEncoder.simps implements_def Itoa_def digits.simps digit_def)
  have v2: "newValueEncoder parseTag (Some (Type_of S)) S = Inr ''two''"
    by (simp add: S_def newValueEncoder.simps implements_def)
  have ok: "valid_layout \<lparr>startPos = 1, endPos = 5, leftpad = lp, bytes = []\<rparr>" for lp
    by (simp add: valid_layout_def)
  have ok1: "valid_layout s1" and ok2: "valid_layout s2"
    by (simp_all add: valid_layout_def s1_def s2_def)
  have fI: "fill_char (Type_of I) = CHR ''0''"
    by (simp add: I_def fill_char_def implements_def numeric_kind_def)
  have fS: "fill_char (Type_of S) = CHR '' ''"
    by (simp add: S_def fill_char_def implements_def numeric_kind_def)
  have a: "structEncoder parseTag (StructV T [(''1,5,leftpad'', I)]) = Inr ''00002''"
    using leftpad_policy [OF t1 v1 ok1, THEN conjunct2, THEN conjunct1, of T]
    by (simp add: s1_def fieldLength_def fI eval_nat_numeral del: structEncoder.simps)
  have b: "structEncoder parseTag (StructV T [(''1,5,leftpad'', S)]) = Inr ''  two''"
    using leftpad_policy [OF t1 v2 ok1, THEN conjunct2, THEN conjunct1, of T]
    by (simp add: s1_def fieldLength_def fS eval_nat_numeral del: structEncoder.simps)
  have c: "structEncoder parseTag (StructV T [(''1,5'', S)]) = Inr ''two  ''"
    using leftpad_policy [OF t2 v2 ok, THEN conjunct2, THEN conjunct1, of T]
    by (simp add: fieldLength_def eval_nat_numeral del: structEncoder.simps)
  have line: "structEncoder parseTag (StructV T ([] @ (''1,5,leftpad'', I) # [(''6,10'', S)]))
      = Inr ''00002two  ''"
    using v1 v2
    by (simp add: t1 t3 s1_def s2_def padValue_def fieldLength_def leftpadChar_fill_char fI
          encodeSpecs_def copy_def eval_nat_numeral)
  have valid: "\<forall>a\<in>set (accepted parseTag ([] @ (''1,5,leftpad'', I) # [(''6,10'', S)])). valid_layout a"
    using ok1 ok2 by (simp add: accepted_Cons t1 t3 accepted_def map_filter_simps)
  have before1: "structEncoder_loop parseTag [] [] = Inr []" by simp
  have after1: "structEncoder_loop parseTag [(''6,10'', S)] [] = Inr [padValue s2 (Type_of S) ''two'']"
    using v2 by (simp add: t3)
  have free1: "\<forall>s'\<in>set [padValue s2 (Type_of S) ''two'']. \<not> writes s' 3"
    by (simp add: writes_def s2_def)
  have "(\<forall>a\<in>set (accepted parseTag ([] @ (''1,5,leftpad'', I) # [(''6,10'', S)])). valid_layout a)
      \<and> structEncoder parseTag (StructV T ([] @ (''1,5,leftpad'', I) # [(''6,10'', S)])) = Inr ''00002two  ''
      \<and> structEncoder_loop parseTag [] [] = Inr []
      \<and> structEncoder_loop parseTag [(''6,10'', S)] [] = Inr [padValue s2 (Type_of S) ''two'']
      \<and> (\<forall>s'\<in>set [padValue s2 (Type_of S) ''two'']. \<not> writes s' 3)
      \<and> startPos s1 \<le> int 3 + 1 \<and> int 3 + 1 \<le> endPos s1
    \<longrightarrow> 3 < length ''00002two  ''
      \<and> (int (length ''2'') < fieldLength s1 \<and> leftpad s1
           \<longrightarrow> ''00002two  '' ! 3 =
                 (replicate (nat (fieldLength s1) - length ''2'') (fill_char (Type_of I)) @ ''2'')
                   ! (3 - nat (startPos s1 - 1)))
      \<and> (\<not> (int (length ''2'') < fieldLength s1 \<and> leftpad s1)
           \<and> 3 - nat (startPos s1 - 1) < length ''2''
           \<longrightarrow> ''00002two  '' ! 3 = ''2'' ! (3 - nat (startPos s1 - 1)))
      \<and> (\<not> (int (length ''2'') < fieldLength s1 \<and> leftpad s1)
           \<and> length ''2'' \<le> 3 - nat (startPos s1 - 1)
           \<and> (\<forall>s'\<in>set []. \<not> writes s' 3)
           \<longrightarrow> ''00002two  '' ! 3 = CHR '' '')"
    by (rule leftpad_policy [OF t1 v1 ok1, THEN conjunct2, THEN conjunct2])
  with valid line before1 after1 free1
  have d: "''00002two  '' ! 3 = CHR ''0''"
    by (simp add: s1_def fieldLength_def fI)
  have valid2: "\<forall>a\<in>set (accepted parseTag ([(''1,5,leftpad'', I)] @ (''6,10'', S) # [])). valid_layout a"
    using ok1 ok2 by (simp add: accepted_Cons t1 t3 accepted_def map_filter_simps)
  have line2: "structEncoder parseTag (StructV T ([(''1,5,leftpad'', I)] @ (''6,10'', S) # []))
      = Inr ''00002two  ''"
    using line by simp
  have before2: "structEncoder_loop parseTag [(''1,5,leftpad'', I)] [] = Inr [padValue s1 (Type_of I) ''2'']"
    using v1 by (simp add: t1)
  have after2: "structEncoder_loop parseTag [] [] = Inr []" by simp
  have free2: "\<forall>s'\<in>set [padValue s1 (Type_of I) ''2'']. \<not> writes s' 8"
    by (simp add: writes_def s1_def fieldLength_def)
  have "(\<forall>a\<in>set (accepted parseTag ([(''1,5,leftpad'', I)] @ (''6,10'', S) # [])). valid_layout a)
      \<and> structEncoder parseTag (StructV T ([(''1,5,leftpad'', I)] @ (''6,10'', S) # [])) = Inr ''00002two  ''
      \<and> structEncoder_loop parseTag [(''1,5,leftpad'', I)] [] = Inr [padValue s1 (Type_of I) ''2'']
      \<and> structEncoder_loop parseTag [] [] = Inr []
      \<and> (\<forall>s'\<in>set []. \<not> writes s' 8)
      \<and> startPos s2 \<le> int 8 + 1 \<and> int 8 + 1 \<le> endPos s2
    \<longrightarrow> 8 < length ''00002two  ''
      \<and> (int (length ''two'') < fieldLength s2 \<and> leftpad s2
           \<longrightarrow> ''00002two  '' ! 8 =
                 (replicate (nat (fieldLength s2) - length ''two'') (fill_char (Type_of S)) @ ''two'')
                   ! (8 - nat (startPos s2 - 1)))
      \<and> (\<not> (int (length ''two'') < fieldLength s2 \<and> leftpad s2)
           \<and> 8 - nat (startPos s2 - 1) < length ''two''
           \<longrightarrow> ''00002two  '' ! 8 = ''two'' ! (8 - nat (startPos s2 - 1)))
      \<and> (\<not> (int (length ''two'') < fieldLength s2 \<and> leftpad s2)
           \<and> length ''two'' \<le> 8 - nat (startPos s2 - 1)
           \<and> (\<forall>s'\<in>set [padValue s1 (Type_of I) ''2'']. \<not> writes s' 8)
           \<longrightarrow> ''00002two  '' ! 8 = CHR '' '')"
    by (rule leftpad_policy [OF t3 v2 ok2, THEN conjunct2, THEN conjunct2])
  with valid2 line2 before2 after2 free2
  have e: "''00002two  '' ! 8 = CHR '' ''"
    by (simp add: s2_def fieldLength_def)
  show ?thesis using a b c line d e unfolding T_def I_def S_def by simp
qed

subsection \<open>Overlapping fields\<close>

lemma byte_at_writes:
  "byte_at specs j = Some c \<Longrightarrow> \<exists>s\<in>set specs. writes s j"
  using byte_at_None [of specs j] by auto

lemma line_of_earlier:
  assumes s1: "structEncoder_loop pt fs1 [] = Inr s1"
    and valid: "\<forall>p\<in>set s1. valid_layout p"
    and d1: "structEncoder pt (StructV i fs1) = Inr d1"
  shows "(case byte_at s1 j of None \<Rightarrow> CHR '' '' | Some c \<Rightarrow> c)
       = (if j < length d1 then d1 ! j else CHR '' '')"
proof -
  from encodeSpecs_ok [OF valid] obtain data where
    data: "encodeSpecs s1 = Inr data"
    and len: "int (length data) = Max (insert 0 (endPos ` set s1))"
    and nth: "\<forall>j<length data. data ! j = (case byte_at s1 j of None \<Rightarrow> CHR '' '' | Some c \<Rightarrow> c)"
    by blast
  have eq: "d1 = data" using d1 data s1 by simp
  show ?thesis
  proof (cases "j < length d1")
    case True
    then show ?thesis using nth eq by simp
  next
    case False
    have "byte_at s1 j = None"
    proof (rule ccontr)
      assume "byte_at s1 j \<noteq> None"
      then obtain p where p: "p \<in> set s1" "writes p j" using byte_at_writes by fastforce
      then have "int j + 1 \<le> endPos p" using writes_range by blast
      also have "endPos p \<le> Max (insert 0 (endPos ` set s1))" using p(1) by simp
      finally show False using False len eq by simp
    qed
    then show ?thesis using False by simp
  qed
qed

text \<open>
  C9, amended. Take a field with an accepted declaration, after the fields
  \<open>fs1\<close> and before the fields \<open>fs2\<close>, and an index of the line for which no
  field of \<open>fs2\<close> has a byte. Where the field has a byte for the index, the
  line shows that byte, whatever the fields declared before it wrote there;
  where it has none, the line shows what the fields before it produce (a space
  beyond their line).
\<close>

theorem later_field_wins:
  assumes "\<forall>s\<in>set (accepted pt (fs1 @ (tag, fv) # fs2)). valid_layout s"
    and "structEncoder pt (StructV i (fs1 @ (tag, fv) # fs2)) = Inr data"
    and "pt tag = Some s"
    and "newValueEncoder pt (Some (Type_of fv)) fv = Inr b"
    and "structEncoder_loop pt fs2 [] = Inr later"
    and "\<forall>s'\<in>set later. \<not> writes s' j"
    and "j < length data"
  shows "(writes (padValue s (Type_of fv) b) j \<longrightarrow>
            data ! j = bytes (padValue s (Type_of fv) b) ! (j - nat (startPos s - 1)))
       \<and> (\<not> writes (padValue s (Type_of fv) b) j \<longrightarrow>
            (\<exists>d1. structEncoder pt (StructV i fs1) = Inr d1
                \<and> data ! j = (if j < length d1 then d1 ! j else CHR '' '')))"
proof -
  define p where "p = padValue s (Type_of fv) b"
  define fs where "fs = fs1 @ (tag, fv) # fs2"
  obtain specs where specs: "structEncoder_loop pt fs [] = Inr specs"
    using assms(2) by (auto simp: fs_def split: sum.splits)
  then obtain s1 where s1: "structEncoder_loop pt fs1 [] = Inr s1" and sp: "specs = s1 @ p # later"
    unfolding fs_def loop_split [OF assms(3,4)] p_def using assms(5) by (auto split: sum.splits)
  have valid: "\<forall>q\<in>set specs. valid_layout q"
    using specs assms(1) unfolding fs_def by (rule loop_valid)
  from struct_line [OF specs assms(1) [folded fs_def], of i]
  have nth: "data ! j = (case byte_at specs j of None \<Rightarrow> CHR '' '' | Some c \<Rightarrow> c)"
    using assms(2,7) by (auto simp: fs_def)
  have later: "byte_at later j = None" using assms(6) by (simp add: byte_at_None)
  have at: "byte_at specs j =
      (if writes p j then Some (bytes p ! (j - nat (startPos p - 1))) else byte_at s1 j)"
    unfolding sp by (simp add: byte_at_append byte_at_Cons later)
  have v1: "\<forall>q\<in>set s1. valid_layout q" using valid sp by simp
  obtain d1 where d1: "structEncoder pt (StructV i fs1) = Inr d1"
    using encodeSpecs_ok [OF v1] s1 by auto
  have "data ! j = (if j < length d1 then d1 ! j else CHR '' '')" if "\<not> writes p j"
    using that nth at line_of_earlier [OF s1 v1 d1, of j] by simp
  moreover have "data ! j = bytes p ! (j - nat (startPos s - 1))" if "writes p j"
    using that nth at by (simp add: p_def)
  ultimately show ?thesis using d1 unfolding p_def by blast
qed

text \<open>
  Two fields in columns 1 to 5, \<^verbatim>\<open>XXXXX\<close> declared first and \<^verbatim>\<open>ab\<close> second:
  the first two bytes of the line are the second field's, the other three the
  first field's.
\<close>

theorem later_field_wins_witness:
  "structEncoder parseTag (StructV \<lparr>TypeName = ''T'', MarshalText = None\<rparr>
      ([(''1,5'', StringV \<lparr>TypeName = ''string'', MarshalText = None\<rparr> ''XXXXX'')]
        @ (''1,5'', StringV \<lparr>TypeName = ''string'', MarshalText = None\<rparr> ''ab'') # [])) = Inr ''abXXX''
   \<and> writes (padValue \<lparr>startPos = 1, endPos = 5, leftpad = False, bytes = []\<rparr>
        (Type_of (StringV \<lparr>TypeName = ''string'', MarshalText = None\<rparr> ''ab'')) ''ab'') 1
   \<and> ''abXXX'' ! 1 = bytes (padValue \<lparr>startPos = 1, endPos = 5, leftpad = False, bytes = []\<rparr>
        (Type_of (StringV \<lparr>TypeName = ''string'', MarshalText = None\<rparr> ''ab'')) ''ab'') ! (1 - nat (1 - 1))
   \<and> \<not> writes (padValue \<lparr>startPos = 1, endPos = 5, leftpad = False, bytes = []\<rparr>
        (Type_of (StringV \<lparr>TypeName = ''string'', MarshalText = None\<rparr> ''ab'')) ''ab'') 2
   \<and> (\<exists>d1. structEncoder parseTag (StructV \<lparr>TypeName = ''T'', MarshalText = None\<rparr>
          [(''1,5'', StringV \<lparr>TypeName = ''string'', MarshalText = None\<rparr> ''XXXXX'')]) = Inr d1
        \<and> ''abXXX'' ! 2 = (if 2 < length d1 then d1 ! 2 else CHR '' ''))"
proof -
  define T where "T = \<lparr>TypeName = ''T'', MarshalText = None\<rparr>"
  define S where "S = \<lparr>TypeName = ''string'', MarshalText = None\<rparr>"
  define spec where "spec = \<lparr>startPos = 1, endPos = 5, leftpad = False, bytes = []\<rparr>"
  have t: "parseTag ''1,5'' = Some spec"
    by (simp add: spec_def parseTag_def bounds_def numeric_def is_digit_def decimal_def)
  have v: "newValueEncoder parseTag (Some (Type_of (StringV S x))) (StringV S x) = Inr x" for x
    by (simp add: S_def newValueEncoder.simps implements_def)
  have h1: "\<forall>s\<in>set (accepted parseTag ([(''1,5'', StringV S ''XXXXX'')] @ (''1,5'', StringV S ''ab'') # [])).
      valid_layout s"
    by (simp add: accepted_Cons t accepted_def map_filter_simps spec_def valid_layout_def)
  have line: "structEncoder parseTag (StructV T ([(''1,5'', StringV S ''XXXXX'')] @ (''1,5'', StringV S ''ab'') # []))
      = Inr ''abXXX''"
    using v [of "''XXXXX''"] v [of "''ab''"]
    by (simp add: t spec_def padValue_def fieldLength_def encodeSpecs_def copy_def eval_nat_numeral)
  have l: "structEncoder_loop parseTag [] [] = Inr []" by simp
  have w1: "writes (padValue spec (Type_of (StringV S ''ab'')) ''ab'') 1"
    by (simp add: writes_def spec_def padValue_def fieldLength_def)
  have w2: "\<not> writes (padValue spec (Type_of (StringV S ''ab'')) ''ab'') 2"
    by (simp add: writes_def spec_def padValue_def fieldLength_def)
  note a = later_field_wins [OF h1 line t v l, of 1]
  note b = later_field_wins [OF h1 line t v l, of 2]
  show ?thesis
    using line w1 w2 a b
    unfolding T_def [symmetric] S_def [symmetric] spec_def [symmetric]
    by (simp add: spec_def del: structEncoder.simps)
qed

text \<open>
  C9 as stated fails on these two fields: column 3 lies in both declared ranges,
  and the line shows the byte of the field declared first there; the second
  field has only two bytes.
\<close>

theorem overlap_counterexample:
  "structEncoder parseTag (StructV \<lparr>TypeName = ''T'', MarshalText = None\<rparr>
      [(''1,5'', StringV \<lparr>TypeName = ''string'', MarshalText = None\<rparr> ''XXXXX''),
       (''1,5'', StringV \<lparr>TypeName = ''string'', MarshalText = None\<rparr> ''ab'')]) = Inr ''abXXX''
   \<and> ''abXXX'' ! 2 = ''XXXXX'' ! 2 \<and> ''abXXX'' ! 2 \<notin> set ''ab''"
proof -
  have t: "parseTag ''1,5'' = Some \<lparr>startPos = 1, endPos = 5, leftpad = False, bytes = []\<rparr>"
    by (simp add: parseTag_def bounds_def numeric_def is_digit_def decimal_def)
  have v: "newValueEncoder parseTag (Some (Type_of (StringV \<lparr>TypeName = ''string'', MarshalText = None\<rparr> x)))
      (StringV \<lparr>TypeName = ''string'', MarshalText = None\<rparr> x) = Inr x" for x
    by (simp add: newValueEncoder.simps implements_def)
  show ?thesis
    using v [of "''XXXXX''"] v [of "''ab''"]
    by (simp add: t padValue_def fieldLength_def encodeSpecs_def copy_def eval_nat_numeral)
qed

subsection \<open>Nil pointers and interfaces\<close>

lemma nil_encodes_empty:
  assumes "fv = NilPtr n t \<or> fv = NilInterface n" "MarshalText n = None"
  shows "newValueEncoder pt (Some (Type_of fv)) fv = Inr []"
  using assms by (auto simp: newValueEncoder.simps implements_def nilEncoder_def)

text \<open>
  C3, amended. A nil pointer or nil interface whose type does not implement
  TextMarshaler encodes to zero bytes. As a struct field with an accepted
  layout it is recorded with no bytes when leftpad is not set, and with the
  field's width of fill characters when leftpad is set. In the line, an index in
  the field's range for which no other field has a byte holds a space without
  leftpad, and the fill character with leftpad (\<open>0\<close> for a pointer to a signed
  integer or a float).
\<close>

theorem nil_field_omitted:
  assumes "fv = NilPtr n t \<or> fv = NilInterface n"
    and "MarshalText n = None"
  shows "newValueEncoder pt (Some (Type_of fv)) fv = Inr []
       \<and> (pt tag = Some s \<and> valid_layout s \<longrightarrow>
            structEncoder_loop pt ((tag, fv) # fs) specs =
              structEncoder_loop pt fs
                (specs @ [s\<lparr>bytes := (if leftpad s
                                      then replicate (nat (fieldLength s)) (fill_char (Type_of fv))
                                      else [])\<rparr>]))
       \<and> (pt tag = Some s
            \<and> (\<forall>a\<in>set (accepted pt (fs1 @ (tag, fv) # fs2)). valid_layout a)
            \<and> structEncoder pt (StructV i (fs1 @ (tag, fv) # fs2)) = Inr data
            \<and> structEncoder_loop pt fs1 [] = Inr before
            \<and> structEncoder_loop pt fs2 [] = Inr after
            \<and> (\<forall>s'\<in>set (before @ after). \<not> writes s' j)
            \<and> startPos s \<le> int j + 1 \<and> int j + 1 \<le> endPos s
          \<longrightarrow> data ! j = (if leftpad s then fill_char (Type_of fv) else CHR '' ''))"
proof -
  define p where "p = padValue s (Type_of fv) []"
  have enc: "newValueEncoder pt (Some (Type_of fv)) fv = Inr []"
    using assms by (rule nil_encodes_empty)
  have p_eq: "p = s\<lparr>bytes := (if leftpad s
                                      then replicate (nat (fieldLength s)) (fill_char (Type_of fv))
                                      else [])\<rparr>" if "valid_layout s"
    using that by (simp add: p_def padValue_eq valid_layout_def fieldLength_def)
  have loop: "structEncoder_loop pt ((tag, fv) # fs) specs = structEncoder_loop pt fs (specs @ [p])"
    if "pt tag = Some s"
    unfolding p_def using that enc by (rule loop_field)
  have line: "data ! j = (if leftpad s then fill_char (Type_of fv) else CHR '' '')"
    if tag: "pt tag = Some s"
      and valid: "\<forall>a\<in>set (accepted pt (fs1 @ (tag, fv) # fs2)). valid_layout a"
      and data: "structEncoder pt (StructV i (fs1 @ (tag, fv) # fs2)) = Inr data"
      and before: "structEncoder_loop pt fs1 [] = Inr before"
      and after: "structEncoder_loop pt fs2 [] = Inr after"
      and others: "\<forall>s'\<in>set (before @ after). \<not> writes s' j"
      and range: "startPos s \<le> int j + 1" "int j + 1 \<le> endPos s"
  proof -
    have specs: "structEncoder_loop pt (fs1 @ (tag, fv) # fs2) [] = Inr (before @ p # after)"
      unfolding loop_split [OF tag enc] p_def using before after by simp
    have "s \<in> set (accepted pt (fs1 @ (tag, fv) # fs2))"
      using tag by (simp add: accepted_append accepted_Cons)
    then have vs: "valid_layout s" using valid by blast
    from struct_line [OF specs valid, of i] data
    have len: "int (length data) = Max (insert 0 (endPos ` set (accepted pt (fs1 @ (tag, fv) # fs2))))"
      and nth: "\<forall>j<length data. data ! j =
          (case byte_at (before @ p # after) j of None \<Rightarrow> CHR '' '' | Some c \<Rightarrow> c)"
      by auto
    have "endPos s \<le> Max (insert 0 (endPos ` set (accepted pt (fs1 @ (tag, fv) # fs2))))"
      using \<open>s \<in> set (accepted pt (fs1 @ (tag, fv) # fs2))\<close> by simp
    then have j: "j < length data" using range(2) len by linarith
    have none: "byte_at after j = None" "byte_at before j = None"
      using others by (simp_all add: byte_at_None)
    have at: "byte_at (before @ p # after) j =
        (if writes p j then Some (bytes p ! (j - nat (startPos p - 1))) else None)"
      by (simp add: byte_at_append byte_at_Cons none)
    show ?thesis
    proof (cases "leftpad s")
      case True
      then have b: "bytes p = replicate (nat (fieldLength s)) (fill_char (Type_of fv))"
        using p_eq [OF vs] by simp
      have w: "writes p j"
        unfolding writes_def b using range vs
        by (simp add: p_def fieldLength_def valid_layout_def)
      have "j - nat (startPos s - 1) < nat (fieldLength s)"
        using range vs by (simp add: fieldLength_def valid_layout_def)
      moreover have "startPos p = startPos s" by (simp add: p_def)
      ultimately have "bytes p ! (j - nat (startPos p - 1)) = fill_char (Type_of fv)"
        unfolding b by simp
      then show ?thesis using nth j at w True by simp
    next
      case False
      then have "bytes p = []" using p_eq [OF vs] by simp
      then have "\<not> writes p j" by (auto simp: writes_def min_def)
      then show ?thesis using nth j at False by simp
    qed
  qed
  show ?thesis using enc loop p_eq line by auto
qed

text \<open>
  A nil \<^verbatim>\<open>*string\<close> in columns 1 to 5 without leftpad: zero bytes, and five
  spaces.
\<close>

theorem nil_field_omitted_witness:
  "newValueEncoder parseTag
      (Some (Type_of (NilPtr \<lparr>TypeName = [], MarshalText = None\<rparr> (Plain reflect_String ''string'' False))))
      (NilPtr \<lparr>TypeName = [], MarshalText = None\<rparr> (Plain reflect_String ''string'' False)) = Inr []
   \<and> structEncoder parseTag (StructV \<lparr>TypeName = ''T'', MarshalText = None\<rparr>
        ([] @ (''1,5'', NilPtr \<lparr>TypeName = [], MarshalText = None\<rparr> (Plain reflect_String ''string'' False)) # []))
       = Inr ''     ''
   \<and> ''     '' ! 4 = CHR '' ''"
proof -
  define N where "N = NilPtr \<lparr>TypeName = [], MarshalText = None\<rparr> (Plain reflect_String ''string'' False)"
  define spec where "spec = \<lparr>startPos = 1, endPos = 5, leftpad = False, bytes = []\<rparr>"
  have n: "N = NilPtr \<lparr>TypeName = [], MarshalText = None\<rparr> (Plain reflect_String ''string'' False)
      \<or> N = NilInterface \<lparr>TypeName = [], MarshalText = None\<rparr>"
    by (simp add: N_def)
  have m: "MarshalText \<lparr>TypeName = [], MarshalText = None\<rparr> = None" by simp
  note inst = nil_field_omitted [OF n m, where pt = parseTag and tag = "''1,5''" and s = spec
      and ?fs1.0 = "[]" and ?fs2.0 = "[]" and i = "\<lparr>TypeName = ''T'', MarshalText = None\<rparr>"
      and data = "''     ''" and before = "[]" and after = "[]" and j = 4]
  have t: "parseTag ''1,5'' = Some spec"
    by (simp add: spec_def parseTag_def bounds_def numeric_def is_digit_def decimal_def)
  have enc: "newValueEncoder parseTag (Some (Type_of N)) N = Inr []" using inst by simp
  have line: "structEncoder parseTag (StructV \<lparr>TypeName = ''T'', MarshalText = None\<rparr> ([] @ (''1,5'', N) # []))
      = Inr ''     ''"
    using enc by (simp add: t spec_def padValue_def fieldLength_def encodeSpecs_def copy_def eval_nat_numeral)
  have valid: "\<forall>a\<in>set (accepted parseTag ([] @ (''1,5'', N) # [])). valid_layout a"
    by (simp add: accepted_Cons t accepted_def map_filter_simps spec_def valid_layout_def)
  have l: "structEncoder_loop parseTag [] [] = Inr []" by simp
  have "''     '' ! 4 = (if leftpad spec then fill_char (Type_of N) else CHR '' '')"
    using inst [THEN conjunct2, THEN conjunct2] t valid line l by (simp add: spec_def)
  then show ?thesis using enc line unfolding N_def by (simp add: spec_def)
qed

text \<open>
  C3 as stated fails on a nil \<^verbatim>\<open>*int\<close> in a leftpad field of columns 1 to 5:
  the dispatcher produces zero bytes, and the field's width is filled with
  zeros, not spaces.
\<close>

theorem nil_leftpad_counterexample:
  "newValueEncoder parseTag
      (Some (Type_of (NilPtr \<lparr>TypeName = [], MarshalText = None\<rparr> (Plain reflect_Int ''int'' False))))
      (NilPtr \<lparr>TypeName = [], MarshalText = None\<rparr> (Plain reflect_Int ''int'' False)) = Inr []
   \<and> structEncoder parseTag (StructV \<lparr>TypeName = ''T'', MarshalText = None\<rparr>
        [(''1,5,leftpad'', NilPtr \<lparr>TypeName = [], MarshalText = None\<rparr> (Plain reflect_Int ''int'' False))])
       = Inr ''00000''"
proof -
  define N where "N = NilPtr \<lparr>TypeName = [], MarshalText = None\<rparr> (Plain reflect_Int ''int'' False)"
  have t: "parseTag ''1,5,leftpad'' = Some \<lparr>startPos = 1, endPos = 5, leftpad = True, bytes = []\<rparr>"
    by (simp add: parseTag_def bounds_def numeric_def is_digit_def decimal_def)
  have enc: "newValueEncoder parseTag (Some (Type_of N)) N = Inr []"
    by (simp add: N_def newValueEncoder.simps implements_def nilEncoder_def)
  have ty: "Type_of N = PtrTo [] False (Plain reflect_Int ''int'' False)"
    by (simp add: N_def implements_def)
  have line: "structEncoder parseTag (StructV \<lparr>TypeName = ''T'', MarshalText = None\<rparr> [(''1,5,leftpad'', N)])
      = Inr ''00000''"
    using enc by (simp add: t ty padValue_def fieldLength_def encodeSpecs_def copy_def eval_nat_numeral)
  show ?thesis using enc line unfolding N_def by simp
qed

subsection \<open>Writing lines\<close>

lemma buffer_write_ok:
  "\<exists>b'. buffer_write p b = (None, b') \<and> received b' = received b @ p"
proof (induction p b rule: buffer_write.induct)
  case (1 p b)
  show ?case
  proof (cases "length p > 4096 - length (pending b)")
    case False
    then show ?thesis by (subst buffer_write.simps) (simp add: received_def)
  next
    case True
    note big = this
    show ?thesis
    proof (cases "pending b = []")
      case True
      from 1(1) [OF big True] obtain b' where
        "buffer_write [] (b\<lparr>out := out b @ p\<rparr>) = (None, b')"
        "received b' = received (b\<lparr>out := out b @ p\<rparr>) @ []" by blast
      then show ?thesis using big True
        by (subst buffer_write.simps) (simp add: received_def)
    next
      case False
      define n where "n = 4096 - length (pending b)"
      from 1(2) [OF big False n_def] obtain b' where
        "buffer_write (drop n p) \<lparr>pending = [], out = out b @ pending b @ take n p\<rparr> = (None, b')"
        "received b' = received \<lparr>pending = [], out = out b @ pending b @ take n p\<rparr> @ drop n p"
        by blast
      then show ?thesis using big False
        by (subst buffer_write.simps) (simp add: received_def n_def Let_def)
    qed
  qed
qed

lemma Write_buffer:
  assumes "is_buffer b"
  shows "\<exists>b'. Write b p = (None, b') \<and> is_buffer b' \<and> received (sink b') = received (sink b) @ p"
proof -
  from buffer_write_ok [of p "sink b"] obtain s where
    "buffer_write p (sink b) = (None, s)" "received s = received (sink b) @ p" by blast
  then show ?thesis using assms by (simp add: Write_def is_buffer_def)
qed

lemma Flush_buffer:
  assumes "is_buffer b"
  shows "Flush b = (None, b\<lparr>sink := \<lparr>pending = [], out = received (sink b)\<rparr>\<rparr>)"
  using assms by (simp add: Flush_def is_buffer_def buffer_flush_def received_def)

lemma Write_all_buffer:
  assumes "is_buffer (w e)"
  shows "\<exists>e'. Write_all e ps = (None, e') \<and> is_buffer (w e') \<and> LineEnd e' = LineEnd e
           \<and> received (sink (w e')) = received (sink (w e)) @ concat ps"
  using assms
proof (induction ps arbitrary: e)
  case Nil
  then show ?case by simp
next
  case (Cons p ps)
  from Write_buffer [OF Cons.prems, of p] obtain b' where
    b': "Write (w e) p = (None, b')" "is_buffer b'" "received (sink b') = received (sink (w e)) @ p"
    by blast
  have "is_buffer (w (e\<lparr>w := b'\<rparr>))" using b'(2) by simp
  from Cons.IH [OF this] obtain e' where
    "Write_all (e\<lparr>w := b'\<rparr>) ps = (None, e')" "is_buffer (w e')" "LineEnd e' = LineEnd e"
    "received (sink (w e')) = received (sink b') @ concat ps"
    by auto
  then show ?case using b' by simp
qed

lemma Write_all_append:
  "Write_all e (ps @ qs) =
     (case Write_all e ps of (Some err, e') \<Rightarrow> (Some err, e') | (None, e') \<Rightarrow> Write_all e' qs)"
  by (induction ps arbitrary: e) (auto split: prod.splits option.splits)

lemma writeLine_ok:
  assumes "newValueEncoder pt (Some (Type_of x)) x = Inr b"
  shows "writeLine pt e x = Write_all e [b]"
  using assms by (auto simp: writeLine_def split: prod.splits option.splits)

lemma writeLine_error:
  assumes "newValueEncoder pt (Some (Type_of x)) x = Inl err"
  shows "writeLine pt e x = (Some err, e)"
  using assms by (simp add: writeLine_def)

lemma writeLines_loop_ok:
  assumes "list_all2 (\<lambda>x b. newValueEncoder pt (Some (Type_of x)) x = Inr b) xs bs"
  shows "writeLines_loop pt e le xs = Write_all e (between le bs)"
  using assms
proof (induction xs bs arbitrary: e rule: list_all2_induct)
  case Nil
  then show ?case by simp
next
  case (Cons x xs b bs)
  show ?case
  proof (cases xs)
    case Nil
    then have "bs = []" using Cons.hyps(2) by simp
    then show ?thesis using Nil Cons.hyps(1)
      by (simp add: writeLine_ok split: prod.splits option.splits)
  next
    case (Cons y ys)
    then obtain c cs where bs: "bs = c # cs" using Cons.hyps(2) by (cases bs) auto
    show ?thesis
      using Cons Cons.hyps(1) Cons.IH
      by (simp add: bs writeLine_ok split: prod.splits option.splits)
  qed
qed

lemma writeLines_loop_abort:
  assumes "list_all2 (\<lambda>x b. newValueEncoder pt (Some (Type_of x)) x = Inr b) xs bs"
    and "newValueEncoder pt (Some (Type_of bad)) bad = Inl err"
  shows "writeLines_loop pt e le (xs @ bad # ys) =
     (case Write_all e (concat (map (\<lambda>b. [b, le]) bs)) of
        (Some werr, e') \<Rightarrow> (Some werr, e')
      | (None, e') \<Rightarrow> (Some err, e'))"
  using assms(1)
proof (induction xs bs arbitrary: e rule: list_all2_induct)
  case Nil
  then show ?case using assms(2) by (simp add: writeLine_error)
next
  case (Cons x xs b bs)
  show ?case
    using Cons.hyps(1) Cons.IH
    by (simp add: writeLine_ok split: prod.splits option.splits)
qed

lemma NewBuffer_is_buffer: "is_buffer (w (NewEncoder NewBuffer))"
  "received (sink (w (NewEncoder NewBuffer))) = []"
  "lineEnd_of (NewEncoder NewBuffer) = [CHR 0x0A]"
  by (simp_all add: NewEncoder_def NewBuffer_def is_buffer_def received_def lineEnd_of_def)

lemma writeLines_ok:
  assumes "list_all2 (\<lambda>x b. newValueEncoder pt (Some (Type_of x)) x = Inr b) xs bs"
  shows "writeLines pt e (SliceV si xs) = Write_all e (between (lineEnd_of e) bs)"
  by (simp add: lineEnd_of_def writeLines_loop_ok [OF assms])

lemma Encode_slice:
  assumes "unwrap iv = Some (SliceV si xs)"
  shows "Encode pt e (Some iv) =
     (case writeLines pt e (SliceV si xs) of
        (Some err, e') \<Rightarrow> (Some err, e')
      | (None, e') \<Rightarrow> (case Flush (w e') of (err, w') \<Rightarrow> (err, e'\<lparr>w := w'\<rparr>)))"
  using assms by (simp add: Encode_def del: writeLines.simps)

lemma Encode_buffer_ok:
  assumes "unwrap iv = Some (SliceV si xs)"
    and "list_all2 (\<lambda>x b. newValueEncoder pt (Some (Type_of x)) x = Inr b) xs bs"
    and "is_buffer (w e)" "received (sink (w e)) = []"
  shows "\<exists>e'. Encode pt e (Some iv) = (None, e') \<and> pending (sink (w e')) = []
            \<and> out (sink (w e')) = concat (between (lineEnd_of e) bs)"
proof -
  from Write_all_buffer [OF assms(3), of "between (lineEnd_of e) bs"] obtain e1 where
    e1: "Write_all e (between (lineEnd_of e) bs) = (None, e1)" "is_buffer (w e1)"
      "received (sink (w e1)) = concat (between (lineEnd_of e) bs)"
    using assms(4) by auto
  have "Encode pt e (Some iv) =
      (None, e1\<lparr>w := (w e1)\<lparr>sink := \<lparr>pending = [], out = received (sink (w e1))\<rparr>\<rparr>\<rparr>)"
    unfolding Encode_slice [OF assms(1)] writeLines_ok [OF assms(2)] e1(1)
    using Flush_buffer [OF e1(2)] by simp
  then show ?thesis using e1(3) by simp
qed

text \<open>
  C5. \<^verbatim>\<open>Encode(nil)\<close> succeeds and leaves the writer as it is. When the value,
  after following pointers and interfaces, is a slice whose elements encode to
  the lines \<open>bs\<close>, \<^verbatim>\<open>writeLines\<close> writes the lines with the terminator between
  consecutive ones and nothing after the last; an encoder over an empty
  in-memory buffer ends with exactly these bytes, all flushed; and \<^verbatim>\<open>Marshal\<close>
  returns them with the terminator \<^verbatim>\<open>\n\<close>, nil when there are none.
\<close>

theorem encode_lines:
  "Encode pt e None = (None, e)
   \<and> (unwrap iv = Some (SliceV si xs)
        \<and> list_all2 (\<lambda>x b. newValueEncoder pt (Some (Type_of x)) x = Inr b) xs bs
      \<longrightarrow> writeLines pt e (SliceV si xs) = Write_all e (between (lineEnd_of e) bs)
        \<and> (\<forall>e0. is_buffer (w e0) \<and> received (sink (w e0)) = [] \<longrightarrow>
             (\<exists>e'. Encode pt e0 (Some iv) = (None, e') \<and> pending (sink (w e')) = []
                  \<and> out (sink (w e')) = concat (between (lineEnd_of e0) bs)))
        \<and> Marshal pt (Some iv) =
             (if concat (between [CHR 0x0A] bs) = [] then None
              else Some (concat (between [CHR 0x0A] bs)), None))"
proof -
  have nil: "Encode pt e None = (None, e)" by (simp add: Encode_def)
  have rest: "writeLines pt e (SliceV si xs) = Write_all e (between (lineEnd_of e) bs)
        \<and> (\<forall>e0. is_buffer (w e0) \<and> received (sink (w e0)) = [] \<longrightarrow>
             (\<exists>e'. Encode pt e0 (Some iv) = (None, e') \<and> pending (sink (w e')) = []
                  \<and> out (sink (w e')) = concat (between (lineEnd_of e0) bs)))
        \<and> Marshal pt (Some iv) =
             (if concat (between [CHR 0x0A] bs) = [] then None
              else Some (concat (between [CHR 0x0A] bs)), None)"
    if u: "unwrap iv = Some (SliceV si xs)"
      and bs: "list_all2 (\<lambda>x b. newValueEncoder pt (Some (Type_of x)) x = Inr b) xs bs"
  proof -
    have buf: "\<exists>e'. Encode pt e0 (Some iv) = (None, e') \<and> pending (sink (w e')) = []
                  \<and> out (sink (w e')) = concat (between (lineEnd_of e0) bs)"
      if "is_buffer (w e0)" "received (sink (w e0)) = []" for e0
      using u bs that by (rule Encode_buffer_ok)
    from buf [OF NewBuffer_is_buffer(1,2)] obtain e' where
      "Encode pt (NewEncoder NewBuffer) (Some iv) = (None, e')"
      "out (sink (w e')) = concat (between [CHR 0x0A] bs)"
      by (auto simp: NewBuffer_is_buffer(3))
    then have "Marshal pt (Some iv) =
             (if concat (between [CHR 0x0A] bs) = [] then None
              else Some (concat (between [CHR 0x0A] bs)), None)"
      by (simp add: Marshal_def Bytes_def)
    then show ?thesis using writeLines_ok [OF bs] buf by blast
  qed
  show ?thesis using nil rest by blast
qed

text \<open>
  Two lines of one byte, directly and behind a pointer; the empty slice; and the
  terminator \<^verbatim>\<open>\r\n\<close>.
\<close>

theorem encode_lines_witness:
  "Marshal parseTag (Some (SliceV \<lparr>TypeName = [], MarshalText = None\<rparr>
      [StringV \<lparr>TypeName = ''string'', MarshalText = None\<rparr> ''X'',
       StringV \<lparr>TypeName = ''string'', MarshalText = None\<rparr> ''Y''])) = (Some [CHR ''X'', CHR 0x0A, CHR ''Y''], None)
   \<and> Marshal parseTag (Some (Pointer \<lparr>TypeName = [], MarshalText = None\<rparr>
      (SliceV \<lparr>TypeName = [], MarshalText = None\<rparr>
        [StringV \<lparr>TypeName = ''string'', MarshalText = None\<rparr> ''X'',
         StringV \<lparr>TypeName = ''string'', MarshalText = None\<rparr> ''Y'']))) = (Some [CHR ''X'', CHR 0x0A, CHR ''Y''], None)
   \<and> Marshal parseTag (Some (SliceV \<lparr>TypeName = [], MarshalText = None\<rparr> [])) = (None, None)
   \<and> Encode parseTag (NewEncoder NewBuffer) None = (None, NewEncoder NewBuffer)
   \<and> (\<exists>e'. Encode parseTag ((NewEncoder NewBuffer)\<lparr>LineEnd := [CHR 0x0D, CHR 0x0A]\<rparr>)
          (Some (SliceV \<lparr>TypeName = [], MarshalText = None\<rparr>
            [StringV \<lparr>TypeName = ''string'', MarshalText = None\<rparr> ''X'',
             StringV \<lparr>TypeName = ''string'', MarshalText = None\<rparr> ''Y''])) = (None, e')
        \<and> pending (sink (w e')) = []
        \<and> out (sink (w e')) = [CHR ''X'', CHR 0x0D, CHR 0x0A, CHR ''Y''])"
proof -
  define S where "S = \<lparr>TypeName = ''string'', MarshalText = None\<rparr>"
  define U where "U = \<lparr>TypeName = [], MarshalText = None\<rparr>"
  define xs where "xs = [StringV S ''X'', StringV S ''Y'']"
  define e0 where "e0 = (NewEncoder NewBuffer)\<lparr>LineEnd := [CHR 0x0D, CHR 0x0A]\<rparr>"
  have v: "newValueEncoder parseTag (Some (Type_of (StringV S x))) (StringV S x) = Inr x" for x
    by (simp add: S_def newValueEncoder.simps implements_def)
  have bs: "list_all2 (\<lambda>x b. newValueEncoder parseTag (Some (Type_of x)) x = Inr b) xs [''X'', ''Y'']"
    using v by (simp add: xs_def)
  have none: "list_all2 (\<lambda>x b. newValueEncoder parseTag (Some (Type_of x)) x = Inr b) [] []"
    by simp
  have u1: "unwrap (SliceV U xs) = Some (SliceV U xs)" by simp
  have u2: "unwrap (Pointer U (SliceV U xs)) = Some (SliceV U xs)" by simp
  have u3: "unwrap (SliceV U []) = Some (SliceV U [])" by simp
  have e0: "is_buffer (w e0)" "received (sink (w e0)) = []" "lineEnd_of e0 = [CHR 0x0D, CHR 0x0A]"
    by (simp_all add: e0_def NewEncoder_def NewBuffer_def is_buffer_def received_def lineEnd_of_def)
  note a = encode_lines [of parseTag "NewEncoder NewBuffer" "SliceV U xs" U xs "[''X'', ''Y'']"]
  note b = encode_lines [of parseTag "NewEncoder NewBuffer" "Pointer U (SliceV U xs)" U xs "[''X'', ''Y'']"]
  note c = encode_lines [of parseTag "NewEncoder NewBuffer" "SliceV U []" U "[]" "[]"]
  have 1: "Marshal parseTag (Some (SliceV U xs)) = (Some [CHR ''X'', CHR 0x0A, CHR ''Y''], None)"
    using a u1 bs by simp
  have 2: "Marshal parseTag (Some (Pointer U (SliceV U xs))) = (Some [CHR ''X'', CHR 0x0A, CHR ''Y''], None)"
    using b u2 bs by simp
  have 3: "Marshal parseTag (Some (SliceV U [])) = (None, None)"
    using c u3 none by simp
  have 4: "Encode parseTag (NewEncoder NewBuffer) None = (None, NewEncoder NewBuffer)"
    using a by simp
  have 5: "\<exists>e'. Encode parseTag e0 (Some (SliceV U xs)) = (None, e') \<and> pending (sink (w e')) = []
        \<and> out (sink (w e')) = [CHR ''X'', CHR 0x0D, CHR 0x0A, CHR ''Y'']"
  proof -
    have "\<exists>e'. Encode parseTag e0 (Some (SliceV U xs)) = (None, e') \<and> pending (sink (w e')) = []
        \<and> out (sink (w e')) = concat (between (lineEnd_of e0) [''X'', ''Y''])"
      using a u1 bs e0(1,2) by blast
    then show ?thesis by (simp add: e0(3))
  qed
  show ?thesis using 1 2 3 4 5 unfolding xs_def S_def U_def e0_def by simp
qed

subsection \<open>Errors\<close>

lemma struct_field_error:
  assumes "pt tag = Some s"
    and "newValueEncoder pt (Some (Type_of fv)) fv = Inl err"
    and "\<forall>f\<in>set fs1. pt (fst f) \<noteq> None \<longrightarrow>
           (\<exists>b. newValueEncoder pt (Some (Type_of (snd f))) (snd f) = Inr b)"
  shows "structEncoder pt (StructV i (fs1 @ (tag, fv) # fs2)) = Inl err"
proof -
  from loop_total [OF assms(3)] obtain s1 where "structEncoder_loop pt fs1 [] = Inr s1" by blast
  then have "structEncoder_loop pt (fs1 @ (tag, fv) # fs2) [] = Inl err"
    using assms(1,2) by (simp add: loop_append)
  then show ?thesis by simp
qed

lemma Encode_abort:
  assumes "newValueEncoder pt (Some (Type_of bad)) bad = Inl err"
    and "list_all2 (\<lambda>x b. newValueEncoder pt (Some (Type_of x)) x = Inr b) xs bs"
    and "unwrap iv = Some (SliceV si (xs @ bad # ys))"
  shows "Encode pt e (Some iv) =
     (case Write_all e (concat (map (\<lambda>b. [b, lineEnd_of e]) bs)) of
        (Some werr, e') \<Rightarrow> (Some werr, e')
      | (None, e') \<Rightarrow> (Some err, e'))"
  unfolding Encode_slice [OF assms(3)]
  using writeLines_loop_abort [OF assms(2,1), of e "lineEnd_of e" ys]
  by (simp add: lineEnd_of_def split: prod.splits option.splits)

text \<open>
  C8. In a slice, let the elements \<open>xs\<close> encode to the lines \<open>bs\<close> and the
  next element \<open>bad\<close> fail with \<open>err\<close>. Then \<^verbatim>\<open>Encode\<close> writes the lines of
  \<open>xs\<close>, each followed by the terminator, and returns \<open>err\<close> (or, before that,
  the error of a failing write): nothing of \<open>bad\<close> or of the elements \<open>ys\<close>
  after it is written, whatever they are, and nothing is flushed; \<^verbatim>\<open>Marshal\<close>
  returns \<open>err\<close>. A struct fails in this way, with the field's error, when the
  encoder of one of its accepted fields fails and those of the accepted fields
  before it succeed.
\<close>

theorem first_error_aborts:
  assumes "newValueEncoder pt (Some (Type_of bad)) bad = Inl err"
    and "list_all2 (\<lambda>x b. newValueEncoder pt (Some (Type_of x)) x = Inr b) xs bs"
    and "unwrap iv = Some (SliceV si (xs @ bad # ys))"
  shows "Encode pt e (Some iv) =
           (case Write_all e (concat (map (\<lambda>b. [b, lineEnd_of e]) bs)) of
              (Some werr, e') \<Rightarrow> (Some werr, e')
            | (None, e') \<Rightarrow> (Some err, e'))
       \<and> Marshal pt (Some iv) = (None, Some err)
       \<and> (pt tag = Some s \<and> newValueEncoder pt (Some (Type_of fv)) fv = Inl ferr
            \<and> (\<forall>f\<in>set fs1. pt (fst f) \<noteq> None \<longrightarrow>
                  (\<exists>b. newValueEncoder pt (Some (Type_of (snd f))) (snd f) = Inr b))
            \<and> MarshalText i = None
          \<longrightarrow> newValueEncoder pt (Some (Type_of (StructV i (fs1 @ (tag, fv) # fs2))))
                (StructV i (fs1 @ (tag, fv) # fs2)) = Inl ferr)"
proof -
  have enc: "Encode pt e0 (Some iv) =
           (case Write_all e0 (concat (map (\<lambda>b. [b, lineEnd_of e0]) bs)) of
              (Some werr, e') \<Rightarrow> (Some werr, e')
            | (None, e') \<Rightarrow> (Some err, e'))" for e0 :: "'b Encoder"
    using assms by (rule Encode_abort)
  obtain e' where "Write_all (NewEncoder NewBuffer)
      (concat (map (\<lambda>b. [b, lineEnd_of (NewEncoder NewBuffer)]) bs)) = (None, e')"
    using Write_all_buffer [OF NewBuffer_is_buffer(1)] by blast
  then have m: "Marshal pt (Some iv) = (None, Some err)"
    using enc [of "NewEncoder NewBuffer"] by (simp add: Marshal_def)
  have f: "newValueEncoder pt (Some (Type_of (StructV i (fs1 @ (tag, fv) # fs2))))
                (StructV i (fs1 @ (tag, fv) # fs2)) = Inl ferr"
    if "pt tag = Some s" "newValueEncoder pt (Some (Type_of fv)) fv = Inl ferr"
      "\<forall>f\<in>set fs1. pt (fst f) \<noteq> None \<longrightarrow>
                  (\<exists>b. newValueEncoder pt (Some (Type_of (snd f))) (snd f) = Inr b)"
      "MarshalText i = None"
    using struct_field_error [OF that(1,2,3), of i fs2] that(4)
    by (simp add: newValueEncoder.simps implements_def del: structEncoder.simps)
  show ?thesis using enc [of e] m f by blast
qed

text \<open>
  A slice of three structs with the fields \<^verbatim>\<open>F1\<close> in columns 1 to 5 and \<^verbatim>\<open>F2\<close>
  in columns 6 to 10, the second of which holds a boolean in \<^verbatim>\<open>F2\<close>: the
  first line and one terminator are written, and the error names \<^verbatim>\<open>bool\<close>.
\<close>

theorem first_error_aborts_witness:
  "(\<exists>e'. Encode parseTag (NewEncoder NewBuffer)
       (Some (SliceV \<lparr>TypeName = [], MarshalText = None\<rparr>
          ([StructV \<lparr>TypeName = ''H'', MarshalText = None\<rparr>
              [(''1,5'', StringV \<lparr>TypeName = ''string'', MarshalText = None\<rparr> ''foo''),
               (''6,10'', IntV KInt \<lparr>TypeName = ''int'', MarshalText = None\<rparr> 1)]]
           @ StructV \<lparr>TypeName = ''H'', MarshalText = None\<rparr>
              ([(''1,5'', StringV \<lparr>TypeName = ''string'', MarshalText = None\<rparr> ''foo'')]
               @ (''6,10'', OtherV KBool \<lparr>TypeName = ''bool'', MarshalText = None\<rparr>) # [])
           # [StructV \<lparr>TypeName = ''H'', MarshalText = None\<rparr>
              [(''1,5'', StringV \<lparr>TypeName = ''string'', MarshalText = None\<rparr> ''bar''),
               (''6,10'', IntV KInt \<lparr>TypeName = ''int'', MarshalText = None\<rparr> 2)]])))
       = (Some (MarshalInvalidTypeError ''bool''), e')
     \<and> received (sink (w e')) = ''foo  1    '' @ [CHR 0x0A])
   \<and> Marshal parseTag
       (Some (SliceV \<lparr>TypeName = [], MarshalText = None\<rparr>
          ([StructV \<lparr>TypeName = ''H'', MarshalText = None\<rparr>
              [(''1,5'', StringV \<lparr>TypeName = ''string'', MarshalText = None\<rparr> ''foo''),
               (''6,10'', IntV KInt \<lparr>TypeName = ''int'', MarshalText = None\<rparr> 1)]]
           @ StructV \<lparr>TypeName = ''H'', MarshalText = None\<rparr>
              ([(''1,5'', StringV \<lparr>TypeName = ''string'', MarshalText = None\<rparr> ''foo'')]
               @ (''6,10'', OtherV KBool \<lparr>TypeName = ''bool'', MarshalText = None\<rparr>) # [])
           # [StructV \<lparr>TypeName = ''H'', MarshalText = None\<rparr>
              [(''1,5'', StringV \<lparr>TypeName = ''string'', MarshalText = None\<rparr> ''bar''),
               (''6,10'', IntV KInt \<lparr>TypeName = ''int'', MarshalText = None\<rparr> 2)]])))
       = (None, Some (MarshalInvalidTypeError ''bool''))"
proof -
  define S where "S = \<lparr>TypeName = ''string'', MarshalText = None\<rparr>"
  define I where "I = \<lparr>TypeName = ''int'', MarshalText = None\<rparr>"
  define H where "H = \<lparr>TypeName = ''H'', MarshalText = None\<rparr>"
  define B where "B = OtherV KBool \<lparr>TypeName = ''bool'', MarshalText = None\<rparr>"
  define U where "U = \<lparr>TypeName = [], MarshalText = None\<rparr>"
  define good where "good = StructV H [(''1,5'', StringV S ''foo''), (''6,10'', IntV KInt I 1)]"
  define bad where "bad = StructV H ([(''1,5'', StringV S ''foo'')] @ (''6,10'', B) # [])"
  define last where "last = StructV H [(''1,5'', StringV S ''bar''), (''6,10'', IntV KInt I 2)]"
  define iv where "iv = SliceV U ([good] @ bad # [last])"
  have t1: "parseTag ''1,5'' = Some \<lparr>startPos = 1, endPos = 5, leftpad = False, bytes = []\<rparr>"
    by (simp add: parseTag_def bounds_def numeric_def is_digit_def decimal_def)
  have t2: "parseTag ''6,10'' = Some \<lparr>startPos = 6, endPos = 10, leftpad = False, bytes = []\<rparr>"
    by (simp add: parseTag_def bounds_def numeric_def is_digit_def decimal_def)
  have vs: "newValueEncoder parseTag (Some (Type_of (StringV S x))) (StringV S x) = Inr x" for x
    by (simp add: S_def newValueEncoder.simps implements_def)
  have vi: "newValueEncoder parseTag (Some (Type_of (IntV KInt I 1))) (IntV KInt I 1) = Inr ''1''"
    by (simp add: I_def newValueEncoder.simps implements_def Itoa_def digits.simps digit_def)
  have vb: "newValueEncoder parseTag (Some (Type_of B)) B = Inl (MarshalInvalidTypeError ''bool'')"
    by (simp add: B_def newValueEncoder.simps implements_def unknownTypeEncoder_def)
  have sg: "structEncoder parseTag good = Inr ''foo  1    ''"
    using vs [of "''foo''"] vi
    by (simp add: good_def t1 t2 padValue_def fieldLength_def encodeSpecs_def copy_def eval_nat_numeral)
  have g: "newValueEncoder parseTag (Some (Type_of good)) good = Inr ''foo  1    ''"
    using sg by (simp add: good_def H_def newValueEncoder.simps implements_def del: structEncoder.simps)
  have before: "\<forall>f\<in>set [(''1,5'', StringV S ''foo'')]. parseTag (fst f) \<noteq> None \<longrightarrow>
                  (\<exists>b. newValueEncoder parseTag (Some (Type_of (snd f))) (snd f) = Inr b)"
    using vs by simp
  have hm: "MarshalText H = None" by (simp add: H_def)
  have b: "newValueEncoder parseTag (Some (Type_of bad)) bad = Inl (MarshalInvalidTypeError ''bool'')"
    unfolding bad_def
    using first_error_aborts [where pt = parseTag and bad = B and err = "MarshalInvalidTypeError ''bool''"
        and xs = "[]" and bs = "[]" and iv = "SliceV U ([] @ B # [])" and si = U and ys = "[]"
        and tag = "''6,10''" and fv = B and ferr = "MarshalInvalidTypeError ''bool''"
        and ?fs1.0 = "[(''1,5'', StringV S ''foo'')]" and i = H and ?fs2.0 = "[]"
        and e = "NewEncoder NewBuffer", OF vb]
      t2 vb before hm
    by simp
  have l: "list_all2 (\<lambda>x b. newValueEncoder parseTag (Some (Type_of x)) x = Inr b) [good] [''foo  1    '']"
    using g by simp
  have u: "unwrap iv = Some (SliceV U ([good] @ bad # [last]))"
    by (simp add: iv_def)
  note main = first_error_aborts [OF b l u, of "NewEncoder NewBuffer"]
  obtain e' where e': "Write_all (NewEncoder NewBuffer)
      (concat (map (\<lambda>b. [b, lineEnd_of (NewEncoder NewBuffer)]) [''foo  1    ''])) = (None, e')"
     "received (sink (w e')) = received (sink (w (NewEncoder NewBuffer)))
        @ concat (concat (map (\<lambda>b. [b, lineEnd_of (NewEncoder NewBuffer)]) [''foo  1    '']))"
    using Write_all_buffer [OF NewBuffer_is_buffer(1)] by blast
  have 1: "\<exists>e'. Encode parseTag (NewEncoder NewBuffer) (Some iv) = (Some (MarshalInvalidTypeError ''bool''), e')
     \<and> received (sink (w e')) = ''foo  1    '' @ [CHR 0x0A]"
    using main [THEN conjunct1] e' by (simp add: NewBuffer_is_buffer)
  have 2: "Marshal parseTag (Some iv) = (None, Some (MarshalInvalidTypeError ''bool''))"
    using main by simp
  show ?thesis
    using 1 2 unfolding iv_def good_def bad_def last_def S_def I_def H_def B_def U_def by simp
qed

text \<open>
  C10. When \<^verbatim>\<open>Encode\<close> on the fresh in-memory buffer returns an error,
  \<^verbatim>\<open>Marshal\<close> returns the nil slice and that error; it returns no bytes with
  any error, whatever the buffer holds by then.
\<close>

theorem marshal_error:
  "(Encode pt (NewEncoder NewBuffer) v = (Some err, e) \<longrightarrow> Marshal pt v = (None, Some err))
   \<and> (Marshal pt v = (r, Some err') \<longrightarrow> r = None)"
  by (auto simp: Marshal_def split: prod.splits option.splits)

text \<open>
  A slice of a text of 5000 bytes and a boolean: at the error the buffer holds
  the 5000 bytes, the writer holds back the terminator, and \<^verbatim>\<open>Marshal\<close>
  returns nil.
\<close>

theorem marshal_error_witness:
  "Encode parseTag (NewEncoder NewBuffer)
      (Some (SliceV \<lparr>TypeName = [], MarshalText = None\<rparr>
         [StringV \<lparr>TypeName = ''string'', MarshalText = None\<rparr> (replicate 5000 (CHR ''a'')),
          OtherV KBool \<lparr>TypeName = ''bool'', MarshalText = None\<rparr>]))
     = (Some (MarshalInvalidTypeError ''bool''),
        \<lparr>w = NewBuffer\<lparr>sink := \<lparr>pending = [CHR 0x0A], out = replicate 5000 (CHR ''a'')\<rparr>\<rparr>,
         LineEnd = [CHR 0x0A]\<rparr>)
   \<and> Marshal parseTag
      (Some (SliceV \<lparr>TypeName = [], MarshalText = None\<rparr>
         [StringV \<lparr>TypeName = ''string'', MarshalText = None\<rparr> (replicate 5000 (CHR ''a'')),
          OtherV KBool \<lparr>TypeName = ''bool'', MarshalText = None\<rparr>]))
     = (None, Some (MarshalInvalidTypeError ''bool''))"
proof -
  define v where "v = Some (SliceV \<lparr>TypeName = [], MarshalText = None\<rparr>
         [StringV \<lparr>TypeName = ''string'', MarshalText = None\<rparr> (replicate 5000 (CHR ''a'')),
          OtherV KBool \<lparr>TypeName = ''bool'', MarshalText = None\<rparr>])"
  have w1: "buffer_write (replicate 5000 (CHR ''a'')) \<lparr>pending = [], out = []\<rparr>
      = (None, \<lparr>pending = [], out = replicate 5000 (CHR ''a'')\<rparr>)"
    by (subst buffer_write.simps, simp, subst buffer_write.simps, simp)
  have w2: "buffer_write [CHR 0x0A] \<lparr>pending = [], out = replicate 5000 (CHR ''a'')\<rparr>
      = (None, \<lparr>pending = [CHR 0x0A], out = replicate 5000 (CHR ''a'')\<rparr>)"
    by (subst buffer_write.simps) simp
  have enc: "Encode parseTag (NewEncoder NewBuffer) v
     = (Some (MarshalInvalidTypeError ''bool''),
        \<lparr>w = NewBuffer\<lparr>sink := \<lparr>pending = [CHR 0x0A], out = replicate 5000 (CHR ''a'')\<rparr>\<rparr>,
         LineEnd = [CHR 0x0A]\<rparr>)"
    by (simp add: v_def Encode_def writeLine_def Write_def NewEncoder_def NewBuffer_def
          newValueEncoder.simps implements_def unknownTypeEncoder_def w1 w2)
  from marshal_error [of parseTag v "MarshalInvalidTypeError ''bool''"] enc
  have "Marshal parseTag v = (None, Some (MarshalInvalidTypeError ''bool''))" by blast
  then show ?thesis using enc unfolding v_def by simp
qed

end
